theory Spec2Isabelle
  imports Complex_Main "HOL-Library.AList"
begin

section \<open>Strings and the path module\<close>

text \<open>
  A JavaScript string is modelled as a \<^typ>\<open>string\<close>: one \<^typ>\<open>char\<close> per UTF-16 code
  unit, for code units below 256 (ASCII and Latin-1). File names are the entries
  \<open>fs.readdir\<close> returns. The functions of Node's \<open>path\<close> module are modelled in their
  POSIX variant, segment by segment.
\<close>

definition toLowerCase_char :: "char \<Rightarrow> char" where
  "toLowerCase_char c =
     (let n = (of_char c :: nat)
      in if (65 \<le> n \<and> n \<le> 90) \<or> (192 \<le> n \<and> n \<le> 222 \<and> n \<noteq> 215)
         then char_of (n + 32) else c)"

definition toLowerCase :: "string \<Rightarrow> string" where
  "toLowerCase s = map toLowerCase_char s"

text \<open>The regular expression class \<open>\s\<close>, for code units below 256.\<close>

definition is_space :: "char \<Rightarrow> bool" where
  "is_space c = ((of_char c :: nat) \<in> {9, 10, 11, 12, 13, 32, 160})"

text \<open>The class \<open>[\s\-_\[\]()]\<close> of \<open>findMatchingFiles\<close>.\<close>

definition is_stripped :: "char \<Rightarrow> bool" where
  "is_stripped c = (is_space c \<or> c \<in> set ''-_[]()'')"

text \<open>The last segment of a path: trailing slashes dropped, then everything after the
  last slash left (\<open>path.basename\<close> with one argument).\<close>

definition basename :: "string \<Rightarrow> string" where
  "basename p = rev (takeWhile (\<lambda>c. c \<noteq> CHR ''/'') (dropWhile (\<lambda>c. c = CHR ''/'') (rev p)))"

text \<open>The extension of a segment: from its last dot, unless the segment has no dot, its
  only dot comes first, or the segment is \<open>..\<close>.\<close>

definition ext_of_base :: "string \<Rightarrow> string" where
  "ext_of_base b =
     (let e = rev (takeWhile (\<lambda>c. c \<noteq> CHR ''.'') (rev b))
      in if CHR ''.'' \<notin> set b \<or> length e + 1 = length b \<or> b = ''..'' then []
         else CHR ''.'' # e)"

definition extname :: "string \<Rightarrow> string" where
  "extname p = ext_of_base (basename p)"

text \<open>\<open>path.parse(p).name\<close>: the last segment without its extension.\<close>

definition parse_name :: "string \<Rightarrow> string" where
  "parse_name p = (let b = basename p in take (length b - length (ext_of_base b)) b)"

fun split_slash :: "string \<Rightarrow> string list" where
  "split_slash [] = [[]]"
| "split_slash (c # cs) =
     (if c = CHR ''/'' then [] # split_slash cs
      else (c # hd (split_slash cs)) # tl (split_slash cs))"

fun join_slash :: "string list \<Rightarrow> string" where
  "join_slash [] = []"
| "join_slash [s] = s"
| "join_slash (s # t # ts) = s @ CHR ''/'' # join_slash (t # ts)"

text \<open>One segment of \<open>normalizeString\<close>: empty and \<open>.\<close> segments are skipped, \<open>..\<close>
  removes the segment before it (or stays, above the start of a relative path).\<close>

definition normalize_step :: "bool \<Rightarrow> string list \<Rightarrow> string \<Rightarrow> string list" where
  "normalize_step allowAboveRoot res seg =
     (if seg = [] \<or> seg = ''.'' then res
      else if seg = ''..'' then
        (if res \<noteq> [] \<and> last res \<noteq> ''..'' then butlast res
         else if allowAboveRoot then res @ [''..''] else res)
      else res @ [seg])"

definition path_normalize :: "string \<Rightarrow> string" where
  "path_normalize p =
     (if p = [] then ''.''
      else
        let isAbsolute = (hd p = CHR ''/'');
            trailingSeparator = (last p = CHR ''/'');
            q = join_slash (foldl (normalize_step (\<not> isAbsolute)) [] (split_slash p))
        in if q = [] then (if isAbsolute then ''/'' else if trailingSeparator then ''./'' else ''.'')
           else (if isAbsolute then ''/'' else []) @ q @ (if trailingSeparator then ''/'' else []))"

text \<open>\<open>path.join\<close> with two arguments.\<close>

definition path_join :: "string \<Rightarrow> string \<Rightarrow> string" where
  "path_join a b =
     (let parts = filter (\<lambda>s. s \<noteq> []) [a, b]
      in if parts = [] then ''.'' else path_normalize (join_slash parts))"

section \<open>The Map objects\<close>

text \<open>
  A JavaScript \<open>Map\<close> keeps its entries in insertion order; \<open>set\<close> on a key that is
  present replaces the value where the entry stands. An association list with distinct
  keys has this behaviour.
\<close>

type_synonym ('k, 'v) jsmap = "('k \<times> 'v) list"

definition map_set :: "'k \<Rightarrow> 'v \<Rightarrow> ('k, 'v) jsmap \<Rightarrow> ('k, 'v) jsmap" where
  "map_set k v m = AList.update k v m"

definition map_delete :: "'k \<Rightarrow> ('k, 'v) jsmap \<Rightarrow> ('k, 'v) jsmap" where
  "map_delete k m = AList.delete k m"

definition map_get :: "('k, 'v) jsmap \<Rightarrow> 'k \<Rightarrow> 'v option" where
  "map_get m k = map_of m k"

section \<open>The configuration\<close>

definition videoExtensions :: "string list" where
  "videoExtensions = [''.mp4'', ''.mkv'', ''.avi'', ''.mov'']"

definition subtitleExtensions :: "string list" where
  "subtitleExtensions = [''.srt'']"

section \<open>findMatchingFiles\<close>

record matched_pair =
  video :: string
  subtitle :: string

text \<open>The key of an entry: \<open>path.parse(file).name.toLowerCase().replace(/[\s\-_\[\]()]/g, '')\<close>.\<close>

definition nameWithoutExt :: "string \<Rightarrow> string" where
  "nameWithoutExt file = filter (\<lambda>c. \<not> is_stripped c) (toLowerCase (parse_name file))"

definition is_video :: "string \<Rightarrow> bool" where
  "is_video file = (toLowerCase (extname file) \<in> set videoExtensions)"

definition is_subtitle :: "string \<Rightarrow> bool" where
  "is_subtitle file =
     (toLowerCase (extname file) \<notin> set videoExtensions \<and>
      toLowerCase (extname file) \<in> set subtitleExtensions)"

text \<open>The body of \<open>files.forEach\<close>, on the two maps.\<close>

definition scan_entry ::
  "string \<Rightarrow> (string, string) jsmap \<times> (string, string) jsmap \<Rightarrow> string \<Rightarrow>
   (string, string) jsmap \<times> (string, string) jsmap" where
  "scan_entry inputDir maps file =
     (let filePath = path_join inputDir file;
          ext = toLowerCase (extname file);
          name = nameWithoutExt file
      in if ext \<in> set videoExtensions then (map_set name filePath (fst maps), snd maps)
         else if ext \<in> set subtitleExtensions then (fst maps, map_set name filePath (snd maps))
         else maps)"

definition scan_files ::
  "string \<Rightarrow> string list \<Rightarrow> (string, string) jsmap \<times> (string, string) jsmap" where
  "scan_files inputDir files = foldl (scan_entry inputDir) ([], []) files"

text \<open>The loop over \<open>videos\<close>, in insertion order.\<close>

fun match_videos :: "(string, string) jsmap \<Rightarrow> (string, string) jsmap \<Rightarrow> matched_pair list" where
  "match_videos [] subtitles = []"
| "match_videos ((name, videoPath) # videos) subtitles =
     (case map_get subtitles name of
        Some subtitlePath \<Rightarrow>
          \<lparr>video = videoPath, subtitle = subtitlePath\<rparr> # match_videos videos subtitles
      | None \<Rightarrow> match_videos videos subtitles)"

definition findMatchingFiles :: "string \<Rightarrow> string list \<Rightarrow> matched_pair list" where
  "findMatchingFiles inputDir files =
     (let maps = scan_files inputDir files in match_videos (fst maps) (snd maps))"

section \<open>Directory entries\<close>

definition valid_entry :: "string \<Rightarrow> bool" where
  "valid_entry f = (f \<noteq> [] \<and> CHR ''/'' \<notin> set f \<and> f \<noteq> ''.'' \<and> f \<noteq> ''..'')"

definition dir_prefix :: "string \<Rightarrow> string" where
  "dir_prefix d =
     (if d = [] then []
      else let res = foldl (normalize_step (hd d \<noteq> CHR ''/'')) [] (split_slash d)
           in (if hd d = CHR ''/'' then ''/'' else []) @
              (if res = [] then [] else join_slash res @ ''/''))"

definition last_entry :: "(string \<Rightarrow> bool) \<Rightarrow> string \<Rightarrow> string list \<Rightarrow> string option" where
  "last_entry cls k files =
     (let fs = filter (\<lambda>f. cls f \<and> nameWithoutExt f = k) files
      in if fs = [] then None else Some (last fs))"

section \<open>Numbers\<close>

text \<open>
  A JavaScript number is an IEEE 754 binary64 value. The finite ones are modelled by the
  rational number they denote, and every arithmetic operation rounds its exact result to
  the nearest binary64 value, ties to the even significand (\<open>fl\<close>). The exponent range is
  not bounded: the values this program computes (two-digit fields, their products with
  3600 and 60, quotients and products with 100) neither overflow nor reach the
  subnormal range. \<open>floor_log2 n\<close> is the binary logarithm of an integer \<open>n \<ge> 1\<close>, rounded
  down, and \<open>ilog2 x\<close> is the binary exponent of a positive \<open>x\<close>.
\<close>

function floor_log2 :: "int \<Rightarrow> int" where
  "floor_log2 n = (if n \<le> 1 then 0 else 1 + floor_log2 (n div 2))"
  by pat_completeness auto
termination
  by (relation "measure nat") auto

declare floor_log2.simps [simp del]

definition ilog2 :: "rat \<Rightarrow> int" where
  "ilog2 x =
     (if 1 \<le> x then floor_log2 \<lfloor>x\<rfloor>
      else - (1 + floor_log2 (\<lceil>1 / x\<rceil> - 1)))"

definition round_half_even :: "rat \<Rightarrow> int" where
  "round_half_even q =
     (let f = \<lfloor>q\<rfloor>; r = q - of_int f
      in if r < 1 / 2 then f else if 1 / 2 < r then f + 1 else if even f then f else f + 1)"

definition fl :: "rat \<Rightarrow> rat" where
  "fl x =
     (if x = 0 then 0
      else let u = 2 powi (ilog2 \<bar>x\<bar> - 52) in of_int (round_half_even (x / u)) * u)"

definition fadd :: "rat \<Rightarrow> rat \<Rightarrow> rat" where
  "fadd a b = fl (a + b)"

definition fsub :: "rat \<Rightarrow> rat \<Rightarrow> rat" where
  "fsub a b = fl (a - b)"

definition fmul :: "rat \<Rightarrow> rat \<Rightarrow> rat" where
  "fmul a b = fl (a * b)"

definition fdiv :: "rat \<Rightarrow> rat \<Rightarrow> rat" where
  "fdiv a b = fl (a / b)"

text \<open>
  \<open>x.toFixed(1)\<close>, as the decimal number its result string denotes: the integer \<open>n\<close> with
  \<open>n / 10\<close> nearest to the magnitude of \<open>x\<close>, the larger one of two; from \<open>10^21\<close> on the
  string is that of the number itself. The string becomes a number again by rounding
  (\<open>to_number\<close>, for \<open>parseFloat(progress)\<close> and for \<open>progress - lastProgress\<close>).
\<close>

definition toFixed1 :: "rat \<Rightarrow> rat" where
  "toFixed1 x =
     (if 10 ^ 21 \<le> \<bar>x\<bar> then x
      else sgn x * (of_int \<lfloor>\<bar>x\<bar> * 10 + 1 / 2\<rfloor> / 10))"

definition to_number :: "rat \<Rightarrow> rat" where
  "to_number s = fl s"

section \<open>The markers of the diagnostic stream\<close>

definition is_digit :: "char \<Rightarrow> bool" where
  "is_digit c = (48 \<le> (of_char c :: nat) \<and> (of_char c :: nat) \<le> 57)"

definition digit_value :: "char \<Rightarrow> int" where
  "digit_value c = of_char c - 48"

text \<open>The regular expression \<open>.\<close> matches every code unit but a line terminator.\<close>

definition is_line_terminator :: "char \<Rightarrow> bool" where
  "is_line_terminator c = ((of_char c :: nat) = 10 \<or> (of_char c :: nat) = 13)"

text \<open>\<open>(\d{2}):(\d{2}):(\d{2}.\d{2})\<close> at the start of a string, with its three groups.\<close>

definition match_hms :: "string \<Rightarrow> (string \<times> string \<times> string) option" where
  "match_hms s =
     (if 11 \<le> length s \<and>
         is_digit (s ! 0) \<and> is_digit (s ! 1) \<and> s ! 2 = CHR '':'' \<and>
         is_digit (s ! 3) \<and> is_digit (s ! 4) \<and> s ! 5 = CHR '':'' \<and>
         is_digit (s ! 6) \<and> is_digit (s ! 7) \<and> \<not> is_line_terminator (s ! 8) \<and>
         is_digit (s ! 9) \<and> is_digit (s ! 10)
      then Some (take 2 s, take 2 (drop 3 s), take 5 (drop 6 s))
      else None)"

text \<open>\<open>output.match(/lit(\d{2}):(\d{2}):(\d{2}.\d{2})/)\<close>: the leftmost match.\<close>

fun regex_match :: "string \<Rightarrow> string \<Rightarrow> (string \<times> string \<times> string) option" where
  "regex_match lit [] = None"
| "regex_match lit (c # cs) =
     (if take (length lit) (c # cs) = lit \<and> match_hms (drop (length lit) (c # cs)) \<noteq> None
      then match_hms (drop (length lit) (c # cs))
      else regex_match lit cs)"

text \<open>\<open>parseFloat\<close> on a group of two digits, and on a group \<open>\d{2}.\d{2}\<close>, whose middle
  character the expression leaves open: a dot gives a fraction, a digit a five-digit
  integer, \<open>e\<close> or \<open>E\<close> an exponent, and any other character ends the number.\<close>

definition parseFloat2 :: "string \<Rightarrow> rat" where
  "parseFloat2 g = fl (of_int (10 * digit_value (g ! 0) + digit_value (g ! 1)))"

definition parseFloat5 :: "string \<Rightarrow> rat" where
  "parseFloat5 g =
     (let a = 10 * digit_value (g ! 0) + digit_value (g ! 1);
          b = 10 * digit_value (g ! 3) + digit_value (g ! 4);
          w = g ! 2
      in fl (if w = CHR ''.'' then of_int a + of_int b / 100
             else if is_digit w then of_int (1000 * a + 100 * digit_value w + b)
             else if w = CHR ''e'' \<or> w = CHR ''E'' then of_int a * 10 ^ nat b
             else of_int a))"

text \<open>\<open>parseFloat(hours) * 3600 + parseFloat(minutes) * 60 + parseFloat(seconds)\<close>.\<close>

fun hms_seconds :: "string \<times> string \<times> string \<Rightarrow> rat" where
  "hms_seconds (hours, minutes, seconds) =
     fadd (fadd (fmul (parseFloat2 hours) 3600) (fmul (parseFloat2 minutes) 60))
       (parseFloat5 seconds)"

section \<open>The program state\<close>

text \<open>
  What a conversion ends with: the promise of \<open>processVideo\<close> resolves, or rejects with
  an error whose message names the file (exit status other than 0) or carries the
  message of the launch error.
\<close>

datatype failure = ExitFailure string | LaunchFailure string

datatype outcome = Resolved | Rejected failure

text \<open>The closure of one \<open>processVideo\<close> call: its label, the two variables of the
  progress parser, and the state of its promise (\<open>None\<close> while pending).\<close>

record task =
  filename :: string
  duration :: rat
  lastProgress :: rat
  settled :: "outcome option"

datatype fs_error = FsError string

text \<open>What the program does to the outside, in order: the calls of \<open>fs.mkdir\<close> and
  \<open>spawn\<close>, the lines it prints, each \<open>printProgress\<close> with what it shows, and
  \<open>process.exit\<close>.\<close>

datatype action =
    Mkdir string
  | Spawn "string list"
  | Progress nat nat "(string \<times> rat) list" "(string \<times> bool) list"
  | LogStart string
  | LogCommand "string list"
  | LogDuration rat
  | LogSuccess string
  | LogFailed string
  | LogProcessError string string
  | LogNoMatches
  | LogFound nat
  | LogEncoder string
  | LogBatchStart nat nat
  | LogBatchDone nat nat
  | LogFailedItem nat string failure
  | LogPrompt
  | LogFinal nat nat nat
  | LogBatchError fs_error
  | LogTopError string
  | LogUsage
  | Exit nat

datatype phase = Running | AwaitingKey | Finished

text \<open>
  The global \<open>STATUS\<close> (\<open>total\<close>, \<open>completed\<close>, \<open>inProgress\<close>, \<open>results\<close>; its field
  \<open>durations\<close> is never used), the variables of \<open>batchProcess\<close>, one \<open>task\<close> per child
  process spawned so far (the task of \<open>matches ! i\<close> is \<open>tasks ! i\<close>), where the control
  flow of \<open>batchProcess\<close> stands, and the actions so far. A value in \<open>inProgress\<close> is the
  number 0 or the decimal number that a \<open>toFixed(1)\<close> string denotes.
\<close>

record state =
  total :: nat
  completed :: nat
  inProgress :: "(string, rat) jsmap"
  results :: "(string, bool) jsmap"
  matches :: "matched_pair list"
  outputDir :: string
  tasks :: "task list"
  currentIndex :: nat
  phase :: phase
  actions :: "action list"
  exit_status :: "nat option"

definition BATCH_SIZE :: nat where
  "BATCH_SIZE = 10"

definition subtitleStyle :: string where
  "subtitleStyle =
     ''FontName=Microsoft YaHei,FontSize=24,PrimaryColour=&HFFFFFF,OutlineColour=&H000000,Outline=2''"

definition getEncoder :: string where
  "getEncoder = ''libx264''"

definition initial_state :: state where
  "initial_state =
     \<lparr>total = 0, completed = 0, inProgress = [], results = [], matches = [], outputDir = [],
      tasks = [], currentIndex = 0, phase = Finished, actions = [], exit_status = None\<rparr>"

definition emit :: "action \<Rightarrow> state \<Rightarrow> state" where
  "emit a s = s\<lparr>actions := actions s @ [a]\<rparr>"

text \<open>\<open>printProgress\<close> shows the two counters, the items in progress and the last five
  results.\<close>

definition printProgress :: "state \<Rightarrow> state" where
  "printProgress s =
     emit (Progress (completed s) (total s) (inProgress s)
       (drop (length (results s) - 5) (results s))) s"

section \<open>processVideo\<close>

definition ffmpegArgs :: "string \<Rightarrow> string \<Rightarrow> string \<Rightarrow> string list" where
  "ffmpegArgs videoPath subtitlePath outputPath =
     [''-hwaccel'', ''auto'',
      ''-i'', videoPath,
      ''-vf'', ''subtitles='' @ subtitlePath @ '':force_style='' @ [CHR 0x27] @ subtitleStyle @ [CHR 0x27],
      ''-c:v'', getEncoder,
      ''-preset'', ''ultrafast'',
      ''-crf'', ''28'',
      ''-threads'', ''0'',
      ''-c:a'', ''copy'',
      ''-maxrate'', ''1.5M'',
      ''-bufsize'', ''3M'',
      ''-tune'', ''fastdecode'',
      ''-movflags'', ''+faststart'',
      ''-max_muxing_queue_size'', ''1024'',
      ''-y'',
      outputPath]"

text \<open>The start of \<open>processVideo\<close>, up to \<open>spawn\<close>: the new child process gets the next
  task, with \<open>duration = 0\<close> and \<open>lastProgress = 0\<close>.\<close>

definition processVideo :: "state \<Rightarrow> string \<Rightarrow> string \<Rightarrow> string \<Rightarrow> state" where
  "processVideo s videoPath subtitlePath outputPath =
     (let fname = basename videoPath;
          s1 = printProgress (s\<lparr>inProgress := map_set fname 0 (inProgress s)\<rparr>);
          args = ffmpegArgs videoPath subtitlePath outputPath;
          s2 = emit (Spawn args) (emit (LogCommand args) (emit (LogStart fname) s1))
      in s2\<lparr>tasks := tasks s2 @
           [\<lparr>filename = fname, duration = 0, lastProgress = 0, settled = None\<rparr>]\<rparr>)"

text \<open>The listener of \<open>ffmpeg.stderr\<close> of child \<open>i\<close>, on one chunk.\<close>

fun duration_found :: "state \<Rightarrow> nat \<Rightarrow> (string \<times> string \<times> string) option \<Rightarrow> state" where
  "duration_found s i None = s"
| "duration_found s i (Some durationMatch) =
     (let d = hms_seconds durationMatch
      in emit (LogDuration d) (s\<lparr>tasks := (tasks s)[i := (tasks s ! i)\<lparr>duration := d\<rparr>]\<rparr>))"

definition capture_duration :: "state \<Rightarrow> nat \<Rightarrow> string \<Rightarrow> state" where
  "capture_duration s i output =
     (if duration (tasks s ! i) = 0
      then duration_found s i (regex_match ''Duration: '' output)
      else s)"

text \<open>The throttle: \<open>Math.abs(progress - lastProgress) >= 0.1\<close>, on the string
  \<open>progress\<close>, and what is done when it holds.\<close>

definition passes_throttle :: "rat \<Rightarrow> rat \<Rightarrow> bool" where
  "passes_throttle progress recorded =
     (fl (1 / 10) \<le> \<bar>fsub (to_number progress) recorded\<bar>)"

definition update_progress :: "state \<Rightarrow> nat \<Rightarrow> rat \<Rightarrow> state" where
  "update_progress s i progress =
     (if passes_throttle progress (lastProgress (tasks s ! i))
      then printProgress
             (s\<lparr>tasks := (tasks s)[i := (tasks s ! i)\<lparr>lastProgress := to_number progress\<rparr>],
                inProgress := map_set (filename (tasks s ! i)) progress (inProgress s)\<rparr>)
      else s)"

fun time_found :: "state \<Rightarrow> nat \<Rightarrow> (string \<times> string \<times> string) option \<Rightarrow> state" where
  "time_found s i None = s"
| "time_found s i (Some timeMatch) =
     (if 0 < duration (tasks s ! i)
      then update_progress s i
             (toFixed1 (fmul (fdiv (hms_seconds timeMatch) (duration (tasks s ! i))) 100))
      else s)"

definition report_time :: "state \<Rightarrow> nat \<Rightarrow> string \<Rightarrow> state" where
  "report_time s i output = time_found s i (regex_match ''time='' output)"

definition on_stderr :: "state \<Rightarrow> nat \<Rightarrow> string \<Rightarrow> state" where
  "on_stderr s i output = report_time (capture_duration s i output) i output"

text \<open>\<open>resolve\<close> and \<open>reject\<close>: only the first call settles the promise.\<close>

definition settle :: "nat \<Rightarrow> outcome \<Rightarrow> state \<Rightarrow> state" where
  "settle i r s =
     (if settled (tasks s ! i) = None
      then s\<lparr>tasks := (tasks s)[i := (tasks s ! i)\<lparr>settled := Some r\<rparr>]\<rparr>
      else s)"

text \<open>The bookkeeping both the \<open>close\<close> and the \<open>error\<close> listener do.\<close>

definition finish :: "string \<Rightarrow> bool \<Rightarrow> state \<Rightarrow> state" where
  "finish fname success s =
     printProgress
       (s\<lparr>inProgress := map_delete fname (inProgress s),
          completed := completed s + 1,
          results := map_set fname success (results s)\<rparr>)"

text \<open>The listener of \<open>close\<close> of child \<open>i\<close>; the exit code is \<open>None\<close> for \<open>null\<close>.\<close>

definition on_close :: "state \<Rightarrow> nat \<Rightarrow> int option \<Rightarrow> state" where
  "on_close s i code =
     (let fname = filename (tasks s ! i);
          s1 = finish fname (code = Some 0) s
      in if code = Some 0 then settle i Resolved (emit (LogSuccess fname) s1)
         else settle i (Rejected (ExitFailure fname)) (emit (LogFailed fname) s1))"

text \<open>The listener of \<open>error\<close> of child \<open>i\<close>, with \<open>err.message\<close>.\<close>

definition on_error :: "state \<Rightarrow> nat \<Rightarrow> string \<Rightarrow> state" where
  "on_error s i message =
     (let fname = filename (tasks s ! i)
      in settle i (Rejected (LaunchFailure message))
           (finish fname False (emit (LogProcessError fname message) s)))"

section \<open>processBatch and batchProcess\<close>

definition is_settled :: "task \<Rightarrow> bool" where
  "is_settled t = (settled t \<noteq> None)"

definition succeeded :: "task \<Rightarrow> bool" where
  "succeeded t = (settled t = Some Resolved)"

text \<open>\<open>processBatch\<close> on the slice from \<open>currentIndex\<close>: one \<open>processVideo\<close> per pair, in
  order, each running up to its \<open>spawn\<close>.\<close>

definition start_video :: "state \<Rightarrow> matched_pair \<Rightarrow> state" where
  "start_video s m =
     processVideo s (video m) (subtitle m)
       (path_join (outputDir s) (parse_name (video m) @ ''_output.mp4''))"

definition start_batch :: "state \<Rightarrow> state" where
  "start_batch s =
     (let s1 = emit (LogBatchStart (currentIndex s + 1)
                  (min (currentIndex s + BATCH_SIZE) (length (matches s)))) s;
          s2 = foldl start_video s1 (take BATCH_SIZE (drop (currentIndex s) (matches s)))
      in s2\<lparr>phase := Running\<rparr>)"

text \<open>The promises of the current batch are those of the tasks from \<open>currentIndex\<close> on;
  \<open>Promise.all\<close> resolves when each of them is settled.\<close>

definition batch_settled :: "state \<Rightarrow> bool" where
  "batch_settled s = list_all is_settled (drop (currentIndex s) (tasks s))"

definition failure_of :: "task \<Rightarrow> failure" where
  "failure_of t = (case settled t of Some (Rejected e) \<Rightarrow> e | _ \<Rightarrow> ExitFailure (filename t))"

text \<open>The loop body of \<open>batchProcess\<close> after \<open>await processBatch\<close>: the summary of the
  batch, \<open>currentIndex += BATCH_SIZE\<close>, then the prompt and the wait for a key, or the
  final statistics.\<close>

definition batch_done :: "state \<Rightarrow> state" where
  "batch_done s =
     (let batch = drop (currentIndex s) (tasks s);
          batchFailed = filter (\<lambda>t. \<not> succeeded t) batch;
          s1 = emit (LogBatchDone (length (filter succeeded batch)) (length batchFailed)) s;
          s2 = foldl (\<lambda>s' (n, t). emit (LogFailedItem (n + 1) (filename t) (failure_of t)) s')
                 s1 (zip [0 ..< length batchFailed] batchFailed);
          s3 = s2\<lparr>currentIndex := currentIndex s + BATCH_SIZE\<rparr>
      in if currentIndex s3 < length (matches s3)
         then (emit LogPrompt s3)\<lparr>phase := AwaitingKey\<rparr>
         else (emit (LogFinal (length (matches s3))
                  (length (filter (\<lambda>e. snd e) (results s3)))
                  (length (filter (\<lambda>e. \<not> snd e) (results s3)))) s3)\<lparr>phase := Finished\<rparr>)"

text \<open>The file system, as the three calls see it.\<close>

record filesystem =
  stat_isDirectory :: "string \<Rightarrow> fs_error + bool"
  mkdir :: "string \<Rightarrow> fs_error option"
  readdir :: "string \<Rightarrow> fs_error + string list"

text \<open>\<open>batchProcess\<close> up to its first wait. Its \<open>catch\<close> prints the error and returns.\<close>

definition batchProcess :: "filesystem \<Rightarrow> string \<Rightarrow> string \<Rightarrow> state" where
  "batchProcess fs inputDir outDir =
     (let s0 = emit (Mkdir outDir) initial_state
      in case mkdir fs outDir of
           Some e \<Rightarrow> emit (LogBatchError e) s0
         | None \<Rightarrow>
             (case readdir fs inputDir of
                Inl e \<Rightarrow> emit (LogBatchError e) s0
              | Inr files \<Rightarrow>
                  (let ms = findMatchingFiles inputDir files
                   in if length ms = 0 then emit LogNoMatches s0
                      else start_batch
                             (emit (LogEncoder getEncoder)
                               (emit (LogFound (length ms))
                                 (s0\<lparr>total := length ms, completed := 0, inProgress := [],
                                     results := [], matches := ms, outputDir := outDir\<rparr>))))))"

text \<open>\<open>main\<close> up to its first wait; \<open>process.exit(1)\<close> ends the process at once.\<close>

definition exit_with :: "nat \<Rightarrow> state \<Rightarrow> state" where
  "exit_with n s = (emit (Exit n) s)\<lparr>exit_status := Some n, phase := Finished\<rparr>"

definition error_message :: "fs_error \<Rightarrow> string" where
  "error_message e = (case e of FsError m \<Rightarrow> m)"

definition main :: "filesystem \<Rightarrow> string list \<Rightarrow> state" where
  "main fs args =
     (if length args \<noteq> 2 then exit_with 1 (emit LogUsage initial_state)
      else
        (case stat_isDirectory fs (args ! 0) of
           Inl e \<Rightarrow> exit_with 1 (emit (LogTopError (error_message e)) initial_state)
         | Inr isDir \<Rightarrow>
             if \<not> isDir then exit_with 1 (emit (LogTopError ''not a directory'') initial_state)
             else batchProcess fs (args ! 0) (args ! 1)))"

text \<open>The status the process ends with: that of \<open>process.exit\<close> if it was called, and 0
  otherwise.\<close>

definition process_status :: "state \<Rightarrow> nat" where
  "process_status s = (case exit_status s of Some n \<Rightarrow> n | None \<Rightarrow> 0)"

section \<open>Events\<close>

text \<open>
  The program then runs as listeners of events: of a child process (a chunk on its
  \<open>stderr\<close>, \<open>close\<close> with the exit code, \<open>error\<close> with the message), and of
  \<open>process.stdin\<close> (\<open>data\<close>). An event is one emission, delivered to the listeners
  attached at that moment; an emission for a child that does not exist, or on
  \<open>process.stdin\<close> while no listener is attached, changes nothing. When the listener
  of a child settles the last pending promise of the batch, \<open>batchProcess\<close> continues
  before the next event.
\<close>

datatype child_event = StderrData string | Close "int option" | ProcessError string

datatype event = Child nat child_event | StdinData

fun handle_child :: "state \<Rightarrow> nat \<Rightarrow> child_event \<Rightarrow> state" where
  "handle_child s i (StderrData output) = on_stderr s i output"
| "handle_child s i (Close code) = on_close s i code"
| "handle_child s i (ProcessError message) = on_error s i message"

definition continue_batch :: "state \<Rightarrow> state" where
  "continue_batch s = (if phase s = Running \<and> batch_settled s then batch_done s else s)"

fun dispatch :: "state \<Rightarrow> event \<Rightarrow> state" where
  "dispatch s (Child i ev) =
     (if i < length (tasks s) then continue_batch (handle_child s i ev) else s)"
| "dispatch s StdinData = (if phase s = AwaitingKey then start_batch s else s)"

definition deliver :: "state \<Rightarrow> event \<Rightarrow> state" where
  "deliver s e = (if exit_status s \<noteq> None then s else dispatch s e)"

definition run :: "state \<Rightarrow> event list \<Rightarrow> state" where
  "run s es = foldl deliver s es"

section \<open>File systems for the examples\<close>

definition failing_mkdir :: filesystem where
  "failing_mkdir =
     \<lparr>stat_isDirectory = (\<lambda>p. Inr True),
      mkdir = (\<lambda>p. Some (FsError ''EACCES'')),
      readdir = (\<lambda>p. Inr [''a.mp4'', ''a.srt''])\<rparr>"

definition failing_readdir :: filesystem where
  "failing_readdir =
     \<lparr>stat_isDirectory = (\<lambda>p. Inr True),
      mkdir = (\<lambda>p. None),
      readdir = (\<lambda>p. Inl (FsError ''EACCES''))\<rparr>"

definition listing :: "string list \<Rightarrow> filesystem" where
  "listing files =
     \<lparr>stat_isDirectory = (\<lambda>p. Inr True), mkdir = (\<lambda>p. None), readdir = (\<lambda>p. Inr files)\<rparr>"

section \<open>Notions for the statements about the diagnostic stream\<close>

text \<open>The value of the leftmost marker of a chunk, in seconds.\<close>

definition marker_seconds :: "string \<Rightarrow> string \<Rightarrow> rat option" where
  "marker_seconds lit output = map_option hms_seconds (regex_match lit output)"

text \<open>A diagnostic stream, chunk by chunk, delivered to the \<open>stderr\<close> listener of child \<open>i\<close>.\<close>

definition feed :: "state \<Rightarrow> nat \<Rightarrow> string list \<Rightarrow> state" where
  "feed s i chunks = foldl (\<lambda>s' output. on_stderr s' i output) s chunks"

text \<open>The values of the \<open>Duration\<close> markers of a stream, one per chunk that has one, and
  the first of a list of values that is not zero (zero when there is none).\<close>

fun duration_markers :: "string list \<Rightarrow> rat list" where
  "duration_markers [] = []"
| "duration_markers (output # chunks) =
     (case marker_seconds ''Duration: '' output of
        None \<Rightarrow> duration_markers chunks
      | Some d \<Rightarrow> d # duration_markers chunks)"

fun first_nonzero :: "rat list \<Rightarrow> rat" where
  "first_nonzero [] = 0"
| "first_nonzero (d # ds) = (if d \<noteq> 0 then d else first_nonzero ds)"

text \<open>The lines that print a duration, among the actions so far: one per time the
  listener fetches the duration.\<close>

fun is_LogDuration :: "action \<Rightarrow> bool" where
  "is_LogDuration (LogDuration d) = True"
| "is_LogDuration _ = False"

section \<open>Notions for the statements about the batches\<close>

text \<open>The \<open>spawn\<close> calls among the actions so far.\<close>

fun is_Spawn :: "action \<Rightarrow> bool" where
  "is_Spawn (Spawn args) = True"
| "is_Spawn _ = False"

definition spawned :: "state \<Rightarrow> action list" where
  "spawned s = filter is_Spawn (actions s)"

text \<open>The task a conversion starts with.\<close>

definition fresh_task :: "matched_pair \<Rightarrow> task" where
  "fresh_task m = \<lparr>filename = basename (video m), duration = 0, lastProgress = 0, settled = None\<rparr>"

text \<open>
  Where \<open>batchProcess\<close> can stand. The tasks are those of a prefix of the matched pairs,
  one \<open>spawn\<close> each, and the tasks before \<open>currentIndex\<close>, a multiple of the batch size, are
  settled. While a batch runs, the tasks are those up to the end of the batch; while the
  program waits for a key, they are those before \<open>currentIndex\<close>, with pairs left; at the
  end there is a task for every pair.
\<close>

definition well_formed :: "state \<Rightarrow> bool" where
  "well_formed s =
     (BATCH_SIZE dvd currentIndex s \<and>
      map filename (tasks s) =
        map (\<lambda>m. basename (video m)) (take (length (tasks s)) (matches s)) \<and>
      length (tasks s) \<le> length (matches s) \<and>
      list_all is_settled (take (currentIndex s) (tasks s)) \<and>
      length (spawned s) = length (tasks s) \<and>
      (case phase s of
         Running \<Rightarrow>
           currentIndex s < length (matches s) \<and>
           length (tasks s) = min (currentIndex s + BATCH_SIZE) (length (matches s)) \<and>
           exit_status s = None
       | AwaitingKey \<Rightarrow>
           currentIndex s < length (matches s) \<and>
           length (tasks s) = currentIndex s \<and>
           exit_status s = None
       | Finished \<Rightarrow>
           length (tasks s) = length (matches s) \<and> length (matches s) \<le> currentIndex s))"

definition orchestrated :: "state \<Rightarrow> bool" where
  "orchestrated s = (well_formed s \<and> (phase s \<noteq> Running \<or> \<not> batch_settled s))"

text \<open>What a listener of child \<open>i\<close> may do to the tasks: replace task \<open>i\<close> by one of the
  same label that is settled if it was.\<close>

definition evolves :: "nat \<Rightarrow> state \<Rightarrow> state \<Rightarrow> bool" where
  "evolves i s s' =
     ((\<exists>t'. tasks s' = (tasks s)[i := t'] \<and> filename t' = filename (tasks s ! i) \<and>
            (is_settled t' \<or> \<not> is_settled (tasks s ! i))) \<and>
      matches s' = matches s \<and> currentIndex s' = currentIndex s \<and> phase s' = phase s \<and>
      exit_status s' = exit_status s \<and> outputDir s' = outputDir s \<and> spawned s' = spawned s)"

text \<open>A directory of eleven videos with their subtitles, and the events of a first batch
  in which nine conversions succeed and one fails.\<close>

definition eleven_pairs :: "string list" where
  "eleven_pairs =
     [''v01.mp4'', ''v01.srt'', ''v02.mp4'', ''v02.srt'', ''v03.mp4'', ''v03.srt'',
      ''v04.mp4'', ''v04.srt'', ''v05.mp4'', ''v05.srt'', ''v06.mp4'', ''v06.srt'',
      ''v07.mp4'', ''v07.srt'', ''v08.mp4'', ''v08.srt'', ''v09.mp4'', ''v09.srt'',
      ''v10.mp4'', ''v10.srt'', ''v11.mp4'', ''v11.srt'']"

definition nine_closed :: "event list" where
  "nine_closed =
     [Child 3 (Close (Some 0)), Child 0 (Close (Some 0)), Child 1 (Close (Some 1)),
      Child 2 (Close (Some 0)), Child 4 (Close (Some 0)), Child 5 (Close (Some 0)),
      Child 6 (Close (Some 0)), Child 7 (Close (Some 0)), Child 8 (Close (Some 0))]"

section \<open>The outline of a state\<close>

text \<open>
  What the control flow of \<open>batchProcess\<close> depends on: the phase, \<open>currentIndex\<close>, the
  number of pairs, which tasks are settled, and whether the process is still alive; and
  what one event does to it. A \<open>close\<close> or an \<open>error\<close> of a child leaves its task settled, a
  chunk on its \<open>stderr\<close> does not change which tasks are settled.
\<close>

type_synonym outline = "phase \<times> nat \<times> nat \<times> bool list \<times> bool"

definition outline :: "state \<Rightarrow> outline" where
  "outline s =
     (phase s, currentIndex s, length (matches s), map is_settled (tasks s),
      exit_status s = None)"

fun settles :: "child_event \<Rightarrow> bool" where
  "settles (StderrData chunk) = False"
| "settles (Close code) = True"
| "settles (ProcessError message) = True"

fun outline_step :: "outline \<Rightarrow> event \<Rightarrow> outline" where
  "outline_step (p, k, n, bs, alive) (Child i ev) =
     (if alive \<and> i < length bs then
        (let bs' = (if settles ev then bs[i := True] else bs)
         in if p = Running \<and> list_all (\<lambda>b. b) (drop k bs')
            then (if k + BATCH_SIZE < n then AwaitingKey else Finished,
                  k + BATCH_SIZE, n, bs', alive)
            else (p, k, n, bs', alive))
      else (p, k, n, bs, alive))"
| "outline_step (p, k, n, bs, alive) StdinData =
     (if alive \<and> p = AwaitingKey
      then (Running, k, n, bs @ replicate (min BATCH_SIZE (n - k)) False, alive)
      else (p, k, n, bs, alive))"

section \<open>The record of the conversions\<close>

text \<open>
  What the program has on record of the conversions. The keys of \<open>results\<close> are the
  labels of the settled tasks, one entry per label; \<open>completed\<close> has counted each entry at
  least once; \<open>total\<close> is the number of pairs.
\<close>

definition recorded :: "state \<Rightarrow> bool" where
  "recorded s =
     (distinct (map fst (results s)) \<and>
      set (map fst (results s)) = filename ` set (filter is_settled (tasks s)) \<and>
      length (results s) \<le> completed s \<and>
      total s = length (matches s))"

section \<open>Properties of the path functions and of findMatchingFiles\<close>

lemma split_slash_nonempty: "split_slash s \<noteq> []"
  by (induction s) auto

lemma split_slash_no_slash: "CHR ''/'' \<notin> set f \<Longrightarrow> split_slash f = [f]"
  by (induction f) auto

lemma split_slash_append:
  "split_slash (a @ CHR ''/'' # b) = split_slash a @ split_slash b"
  by (induction a) (auto simp: split_slash_nonempty)

lemma join_slash_snoc:
  "join_slash (res @ [f]) = (if res = [] then f else join_slash res @ CHR ''/'' # f)"
  by (induction res rule: join_slash.induct) auto

lemma join_slash_snoc_nonempty: "f \<noteq> [] \<Longrightarrow> join_slash (res @ [f]) \<noteq> []"
  by (simp add: join_slash_snoc)

lemma path_join_valid:
  assumes "valid_entry f"
  shows "path_join d f = dir_prefix d @ f"
proof (cases "d = []")
  case True
  from assms have f: "f \<noteq> []" "CHR ''/'' \<notin> set f" "f \<noteq> ''.''" "f \<noteq> ''..''"
    by (auto simp: valid_entry_def)
  have last_f: "last f \<noteq> CHR ''/''" using f(1,2) last_in_set by metis
  have hd_f: "hd f \<noteq> CHR ''/''" using f(1,2) hd_in_set by metis
  have fold_eq: "foldl (normalize_step True) [] (split_slash f) = [f]"
    using f by (simp add: split_slash_no_slash normalize_step_def)
  show ?thesis
    using True f(1) last_f hd_f
    by (simp add: path_join_def path_normalize_def Let_def fold_eq dir_prefix_def)
next
  case False
  from assms have f: "f \<noteq> []" "CHR ''/'' \<notin> set f" "f \<noteq> ''.''" "f \<noteq> ''..''"
    by (auto simp: valid_entry_def)
  have last_f: "last f \<noteq> CHR ''/''" using f(1,2) last_in_set by metis
  have j: "join_slash [d, f] = d @ CHR ''/'' # f" by simp
  have hd_eq: "hd (d @ CHR ''/'' # f) = hd d" using False by simp
  have last_eq: "last (d @ CHR ''/'' # f) = last f" using f(1) by simp
  define res where "res = foldl (normalize_step (hd d \<noteq> CHR ''/'')) [] (split_slash d)"
  have fold_eq: "foldl (normalize_step (hd d \<noteq> CHR ''/'')) [] (split_slash (d @ CHR ''/'' # f)) = res @ [f]"
    using f by (simp add: split_slash_append split_slash_no_slash res_def normalize_step_def)
  have pj: "path_join d f = path_normalize (d @ CHR ''/'' # f)"
    using False f(1) by (simp add: path_join_def)
  have q: "join_slash (res @ [f]) \<noteq> []"
    using f(1) by (rule join_slash_snoc_nonempty)
  have n: "path_normalize (d @ CHR ''/'' # f) =
      (if hd d = CHR ''/'' then ''/'' else []) @ join_slash (res @ [f])"
    unfolding path_normalize_def Let_def hd_eq last_eq
    using q last_f by (simp add: fold_eq)
  show ?thesis
    unfolding pj n using False
    by (simp add: join_slash_snoc dir_prefix_def Let_def res_def [symmetric])
qed

lemma dir_prefix_shape: "dir_prefix d = [] \<or> last (dir_prefix d) = CHR ''/''"
  by (auto simp: dir_prefix_def Let_def)

lemma basename_prefixed:
  assumes "f \<noteq> []" "CHR ''/'' \<notin> set f" "P = [] \<or> last P = CHR ''/''"
  shows "basename (P @ f) = f"
proof -
  have 1: "dropWhile (\<lambda>c. c = CHR ''/'') (rev f @ rev P) = rev f @ rev P"
    using assms(1,2) by (cases "rev f") (auto simp: dropWhile_append3 intro: hd_dropWhile)
  have 2: "takeWhile (\<lambda>c. c \<noteq> CHR ''/'') (rev f @ rev P) = rev f"
  proof (cases "P = []")
    case True
    then show ?thesis using assms(2) by (auto simp: takeWhile_eq_all_conv)
  next
    case False
    with assms(3) have "hd (rev P) = CHR ''/''" by (simp add: hd_rev)
    moreover have "rev P \<noteq> []" using False by simp
    ultimately have "takeWhile (\<lambda>c. c \<noteq> CHR ''/'') (rev P) = []"
      by (cases "rev P") auto
    moreover have "takeWhile (\<lambda>c. c \<noteq> CHR ''/'') (rev f @ rev P) =
        rev f @ takeWhile (\<lambda>c. c \<noteq> CHR ''/'') (rev P)"
      using assms(2) by (intro takeWhile_append2) auto
    ultimately show ?thesis by simp
  qed
  show ?thesis by (simp add: basename_def 1 2)
qed

lemma basename_path_join: "valid_entry f \<Longrightarrow> basename (path_join d f) = f"
  using dir_prefix_shape [of d]
  by (simp add: path_join_valid basename_prefixed valid_entry_def)

lemma last_entry_snoc:
  "last_entry cls k (files @ [f]) =
     (if cls f \<and> nameWithoutExt f = k then Some f else last_entry cls k files)"
  by (simp add: last_entry_def Let_def)

lemma last_entry_Nil: "last_entry cls k [] = None"
  by (simp add: last_entry_def)

lemma last_entry_SomeD:
  "last_entry cls k files = Some f \<Longrightarrow> f \<in> set files \<and> cls f \<and> nameWithoutExt f = k"
proof -
  assume a: "last_entry cls k files = Some f"
  let ?fs = "filter (\<lambda>f. cls f \<and> nameWithoutExt f = k) files"
  from a have ne: "?fs \<noteq> []" and l: "last ?fs = f"
    by (auto simp: last_entry_def Let_def split: if_splits)
  from ne have "last ?fs \<in> set ?fs" by (rule last_in_set)
  with l show ?thesis by auto
qed

lemma last_entry_None_iff:
  "last_entry cls k files = None \<longleftrightarrow> (\<forall>f\<in>set files. \<not> (cls f \<and> nameWithoutExt f = k))"
  by (auto simp: last_entry_def Let_def filter_empty_conv)

lemma scan_files_snoc:
  "scan_files d (files @ [f]) = scan_entry d (scan_files d files) f"
  by (simp add: scan_files_def)

lemma is_subtitle_not_video: "is_subtitle f \<Longrightarrow> \<not> is_video f"
  by (simp add: is_subtitle_def is_video_def)

lemma videos_lookup:
  "map_of (fst (scan_files d files)) k = map_option (path_join d) (last_entry is_video k files)"
proof (induction files rule: rev_induct)
  case Nil
  show ?case by (simp add: scan_files_def last_entry_Nil)
next
  case (snoc f files)
  then show ?case
    by (simp add: scan_files_snoc scan_entry_def Let_def last_entry_snoc map_set_def
        update_conv' is_video_def)
qed

lemma subtitles_lookup:
  "map_of (snd (scan_files d files)) k = map_option (path_join d) (last_entry is_subtitle k files)"
proof (induction files rule: rev_induct)
  case Nil
  show ?case by (simp add: scan_files_def last_entry_Nil)
next
  case (snoc f files)
  then show ?case
    by (simp add: scan_files_snoc scan_entry_def Let_def last_entry_snoc map_set_def
        update_conv' is_subtitle_def)
qed

lemma videos_distinct: "distinct (map fst (fst (scan_files d files)))"
  by (induction files rule: rev_induct)
    (simp_all add: scan_files_def scan_entry_def Let_def map_set_def distinct_update)

lemma subtitles_distinct: "distinct (map fst (snd (scan_files d files)))"
  by (induction files rule: rev_induct)
    (simp_all add: scan_files_def scan_entry_def Let_def map_set_def distinct_update)

lemma videos_entry:
  assumes "(k, p) \<in> set (fst (scan_files d files))"
  shows "\<exists>f\<in>set files. is_video f \<and> nameWithoutExt f = k \<and> p = path_join d f"
proof -
  from assms have "map_of (fst (scan_files d files)) k = Some p"
    by (simp add: videos_distinct)
  then obtain f where "last_entry is_video k files = Some f" "p = path_join d f"
    by (auto simp: videos_lookup)
  then show ?thesis by (auto dest: last_entry_SomeD)
qed

lemma subtitles_entry:
  assumes "map_of (snd (scan_files d files)) k = Some p"
  shows "\<exists>f\<in>set files. is_subtitle f \<and> nameWithoutExt f = k \<and> p = path_join d f"
proof -
  from assms obtain f where "last_entry is_subtitle k files = Some f" "p = path_join d f"
    by (auto simp: subtitles_lookup)
  then show ?thesis by (auto dest: last_entry_SomeD)
qed

lemma match_videos_map:
  "match_videos vids subs =
     map (\<lambda>(k, vp). \<lparr>video = vp, subtitle = the (map_of subs k)\<rparr>)
       (filter (\<lambda>(k, vp). map_of subs k \<noteq> None) vids)"
  by (induction vids subs rule: match_videos.induct) (auto simp: map_get_def)

lemma match_videos_videos:
  "map video (match_videos vids subs) = map snd (filter (\<lambda>(k, vp). map_of subs k \<noteq> None) vids)"
  by (induction vids subs rule: match_videos.induct) (auto simp: map_get_def)

lemma match_videos_set:
  "m \<in> set (match_videos vids subs) \<longleftrightarrow>
     (\<exists>k. (k, video m) \<in> set vids \<and> map_of subs k = Some (subtitle m))"
  by (induction vids subs rule: match_videos.induct) (auto simp: map_get_def split: option.splits)

lemma videos_key_of_path:
  assumes "list_all valid_entry files" "valid_entry f"
    and "(k, path_join d f) \<in> set (fst (scan_files d files))"
  shows "k = nameWithoutExt f"
proof -
  from videos_entry [OF assms(3)] obtain g where
    g: "g \<in> set files" "nameWithoutExt g = k" "path_join d f = path_join d g" by auto
  from g(1) assms(1) have "valid_entry g" by (simp add: list_all_iff)
  then have "basename (path_join d g) = g" by (rule basename_path_join)
  moreover have "basename (path_join d f) = f" using assms(2) by (rule basename_path_join)
  ultimately have "f = g" using g(3) by simp
  with g(2) show ?thesis by simp
qed

lemma subtitles_key_of_path:
  assumes "list_all valid_entry files" "valid_entry f"
    and "map_of (snd (scan_files d files)) k = Some (path_join d f)"
  shows "k = nameWithoutExt f"
proof -
  from subtitles_entry [OF assms(3)] obtain g where
    g: "g \<in> set files" "nameWithoutExt g = k" "path_join d f = path_join d g" by auto
  from g(1) assms(1) have "valid_entry g" by (simp add: list_all_iff)
  then have "basename (path_join d g) = g" by (rule basename_path_join)
  moreover have "basename (path_join d f) = f" using assms(2) by (rule basename_path_join)
  ultimately have "f = g" using g(3) by simp
  with g(2) show ?thesis by simp
qed

lemma distinct_map_composed: "distinct (map (\<lambda>x. f (g x)) xs) \<Longrightarrow> distinct (map g xs)"
  by (induction xs) auto

lemma videos_labels_distinct:
  assumes "list_all valid_entry files"
  shows "distinct (map (\<lambda>e. basename (snd e)) (fst (scan_files d files)))"
proof -
  let ?vids = "fst (scan_files d files)"
  have eq: "map (\<lambda>e. nameWithoutExt (basename (snd e))) ?vids = map fst ?vids"
  proof (rule map_cong [OF refl])
    fix e assume e: "e \<in> set ?vids"
    then have "(fst e, snd e) \<in> set ?vids" by simp
    from videos_entry [OF this] obtain g where
      g: "g \<in> set files" "nameWithoutExt g = fst e" "snd e = path_join d g" by auto
    from g(1) assms have "valid_entry g" by (simp add: list_all_iff)
    then have "basename (path_join d g) = g" by (rule basename_path_join)
    with g show "nameWithoutExt (basename (snd e)) = fst e" by simp
  qed
  have "distinct (map (\<lambda>e. nameWithoutExt (basename (snd e))) ?vids)"
    unfolding eq by (rule videos_distinct)
  then show ?thesis by (rule distinct_map_composed)
qed

lemma result_labels_distinct:
  assumes "list_all valid_entry files"
  shows "distinct (map (\<lambda>m. basename (video m)) (findMatchingFiles d files))"
proof -
  let ?vids = "fst (scan_files d files)" and ?subs = "snd (scan_files d files)"
  have "map (\<lambda>m. basename (video m)) (findMatchingFiles d files) =
        map basename (map video (match_videos ?vids ?subs))"
    by (simp add: findMatchingFiles_def Let_def comp_def)
  also have "\<dots> = map (\<lambda>e. basename (snd e))
        (filter (\<lambda>(k, vp). map_of ?subs k \<noteq> None) ?vids)"
    by (simp add: match_videos_videos comp_def)
  finally show ?thesis
    using videos_labels_distinct [OF assms, of d] by (simp add: distinct_map_filter)
qed

lemma result_distinct:
  assumes "list_all valid_entry files"
  shows "distinct (findMatchingFiles d files)"
  using result_labels_distinct [OF assms, of d] by (simp add: distinct_map)

lemma result_member:
  "m \<in> set (findMatchingFiles d files) \<longleftrightarrow>
     (\<exists>k. (k, video m) \<in> set (fst (scan_files d files)) \<and>
          map_of (snd (scan_files d files)) k = Some (subtitle m))"
  by (simp add: findMatchingFiles_def Let_def match_videos_set)

lemma count_list_distinct: "distinct xs \<Longrightarrow> x \<in> set xs \<Longrightarrow> count_list xs x = 1"
  by (induction xs) auto

lemma filter_singleton:
  assumes "distinct xs" "x \<in> set xs" "P x" "\<forall>y\<in>set xs. P y \<longrightarrow> y = x"
  shows "filter P xs = [x]"
  using assms
proof (induction xs)
  case Nil
  then show ?case by simp
next
  case (Cons a xs)
  show ?case
  proof (cases "a = x")
    case True
    with Cons.prems(1) have "x \<notin> set xs" by simp
    with Cons.prems(4) have "\<forall>y\<in>set xs. \<not> P y" by auto
    then have "filter P xs = []" by (simp add: filter_empty_conv)
    with True Cons.prems(3) show ?thesis by simp
  next
    case False
    with Cons.prems(2) have 1: "x \<in> set xs" by simp
    from Cons.prems(1) have 2: "distinct xs" by simp
    from Cons.prems(4) have 3: "\<forall>y\<in>set xs. P y \<longrightarrow> y = x" by simp
    from Cons.prems(4) False have 4: "\<not> P a" by auto
    from Cons.IH [OF 2 1 Cons.prems(3) 3] 4 show ?thesis by simp
  qed
qed

text \<open>
  Claim C4, as the code has it. For a listing of directory entry names: when \<open>V\<close> is
  the last video entry and \<open>S\<close> the last subtitle entry with the normalized key \<open>k\<close>,
  the result holds the pair of their paths exactly once. A video entry whose key no
  subtitle entry has is the video of no pair, and a subtitle entry whose key no video
  entry has is the subtitle of no pair.
\<close>

theorem matched_pair_for_last_entries:
  assumes "list_all valid_entry files"
  shows "(last_entry is_video k files = Some V \<and> last_entry is_subtitle k files = Some S \<longrightarrow>
            count_list (findMatchingFiles d files)
              \<lparr>video = path_join d V, subtitle = path_join d S\<rparr> = 1) \<and>
         (V \<in> set files \<and> is_video V \<and> last_entry is_subtitle (nameWithoutExt V) files = None \<longrightarrow>
            path_join d V \<notin> video ` set (findMatchingFiles d files)) \<and>
         (S \<in> set files \<and> is_subtitle S \<and> last_entry is_video (nameWithoutExt S) files = None \<longrightarrow>
            path_join d S \<notin> subtitle ` set (findMatchingFiles d files))"
proof (intro conjI impI)
  assume a: "last_entry is_video k files = Some V \<and> last_entry is_subtitle k files = Some S"
  then have "map_of (fst (scan_files d files)) k = Some (path_join d V)"
    and s: "map_of (snd (scan_files d files)) k = Some (path_join d S)"
    by (simp_all add: videos_lookup subtitles_lookup)
  then have "(k, path_join d V) \<in> set (fst (scan_files d files))"
    by (auto dest: map_of_SomeD)
  with s have "\<lparr>video = path_join d V, subtitle = path_join d S\<rparr> \<in> set (findMatchingFiles d files)"
    by (auto simp: result_member)
  with result_distinct [OF assms, of d]
  show "count_list (findMatchingFiles d files) \<lparr>video = path_join d V, subtitle = path_join d S\<rparr> = 1"
    by (rule count_list_distinct)
next
  assume a: "V \<in> set files \<and> is_video V \<and> last_entry is_subtitle (nameWithoutExt V) files = None"
  show "path_join d V \<notin> video ` set (findMatchingFiles d files)"
  proof
    assume "path_join d V \<in> video ` set (findMatchingFiles d files)"
    then obtain m where m: "m \<in> set (findMatchingFiles d files)" "video m = path_join d V" by auto
    then obtain k' where k': "(k', path_join d V) \<in> set (fst (scan_files d files))"
      "map_of (snd (scan_files d files)) k' = Some (subtitle m)"
      by (auto simp: result_member)
    from a assms have "valid_entry V" by (simp add: list_all_iff)
    from videos_key_of_path [OF assms this k'(1)] have "k' = nameWithoutExt V" .
    with k'(2) a show False by (simp add: subtitles_lookup)
  qed
next
  assume a: "S \<in> set files \<and> is_subtitle S \<and> last_entry is_video (nameWithoutExt S) files = None"
  show "path_join d S \<notin> subtitle ` set (findMatchingFiles d files)"
  proof
    assume "path_join d S \<in> subtitle ` set (findMatchingFiles d files)"
    then obtain m where m: "m \<in> set (findMatchingFiles d files)" "subtitle m = path_join d S" by auto
    then obtain k' where k': "(k', video m) \<in> set (fst (scan_files d files))"
      "map_of (snd (scan_files d files)) k' = Some (path_join d S)"
      by (auto simp: result_member)
    from a assms have "valid_entry S" by (simp add: list_all_iff)
    from subtitles_key_of_path [OF assms this k'(2)] have "k' = nameWithoutExt S" .
    moreover from k'(1) have "map_of (fst (scan_files d files)) k' = Some (video m)"
      by (simp add: videos_distinct)
    ultimately show False using a by (simp add: videos_lookup)
  qed
qed

theorem matched_pair_for_last_entries_witness:
  "list_all valid_entry [''a.mp4'', ''A.mp4'', ''a.srt'', ''b.mkv'', ''c.srt''] \<and>
   last_entry is_video ''a'' [''a.mp4'', ''A.mp4'', ''a.srt'', ''b.mkv'', ''c.srt''] = Some ''A.mp4'' \<and>
   last_entry is_subtitle ''a'' [''a.mp4'', ''A.mp4'', ''a.srt'', ''b.mkv'', ''c.srt''] = Some ''a.srt'' \<and>
   count_list (findMatchingFiles ''videos'' [''a.mp4'', ''A.mp4'', ''a.srt'', ''b.mkv'', ''c.srt''])
     \<lparr>video = path_join ''videos'' ''A.mp4'', subtitle = path_join ''videos'' ''a.srt''\<rparr> = 1 \<and>
   is_video ''b.mkv'' \<and>
   last_entry is_subtitle (nameWithoutExt ''b.mkv'') [''a.mp4'', ''A.mp4'', ''a.srt'', ''b.mkv'', ''c.srt''] = None \<and>
   path_join ''videos'' ''b.mkv'' \<notin>
     video ` set (findMatchingFiles ''videos'' [''a.mp4'', ''A.mp4'', ''a.srt'', ''b.mkv'', ''c.srt'']) \<and>
   is_subtitle ''c.srt'' \<and>
   last_entry is_video (nameWithoutExt ''c.srt'') [''a.mp4'', ''A.mp4'', ''a.srt'', ''b.mkv'', ''c.srt''] = None \<and>
   path_join ''videos'' ''c.srt'' \<notin>
     subtitle ` set (findMatchingFiles ''videos'' [''a.mp4'', ''A.mp4'', ''a.srt'', ''b.mkv'', ''c.srt''])"
proof -
  let ?files = "[''a.mp4'', ''A.mp4'', ''a.srt'', ''b.mkv'', ''c.srt'']"
  have v: "list_all valid_entry ?files" by code_simp
  have 1: "last_entry is_video ''a'' ?files = Some ''A.mp4''" by code_simp
  have 2: "last_entry is_subtitle ''a'' ?files = Some ''a.srt''" by code_simp
  have 3: "is_video ''b.mkv''" by code_simp
  have 4: "last_entry is_subtitle (nameWithoutExt ''b.mkv'') ?files = None" by code_simp
  have 5: "is_subtitle ''c.srt''" by code_simp
  have 6: "last_entry is_video (nameWithoutExt ''c.srt'') ?files = None" by code_simp
  show ?thesis
    using matched_pair_for_last_entries [OF v, of "''a''" "''A.mp4''" "''a.srt''" "''videos''"]
      matched_pair_for_last_entries [OF v, of _ "''b.mkv''" _ "''videos''"]
      matched_pair_for_last_entries [OF v, of _ _ "''c.srt''" "''videos''"]
      v 1 2 3 4 5 6
    by simp
qed

text \<open>
  The claim as stated, for every video \<open>V\<close> and subtitle \<open>S\<close> with equal keys, fails when
  a later video has the same key: the earlier video is in no pair.
\<close>

theorem collision_counterexample:
  "''a.mp4'' \<in> set [''a.mp4'', ''A.mp4'', ''a.srt''] \<and> is_video ''a.mp4'' \<and>
   ''a.srt'' \<in> set [''a.mp4'', ''A.mp4'', ''a.srt''] \<and> is_subtitle ''a.srt'' \<and>
   nameWithoutExt ''a.mp4'' = nameWithoutExt ''a.srt'' \<and>
   findMatchingFiles ''videos'' [''a.mp4'', ''A.mp4'', ''a.srt''] =
     [\<lparr>video = ''videos/A.mp4'', subtitle = ''videos/a.srt''\<rparr>] \<and>
   count_list (findMatchingFiles ''videos'' [''a.mp4'', ''A.mp4'', ''a.srt''])
     \<lparr>video = path_join ''videos'' ''a.mp4'', subtitle = path_join ''videos'' ''a.srt''\<rparr> = 0"
  by code_simp

lemma pair_of_key:
  assumes "list_all valid_entry files"
    and "last_entry is_video k files = Some V" "last_entry is_subtitle k files = Some S"
    and "m \<in> set (findMatchingFiles d files)"
    and "(k, video m) \<in> set (fst (scan_files d files)) \<or>
         map_of (snd (scan_files d files)) k = Some (subtitle m)"
  shows "m = \<lparr>video = path_join d V, subtitle = path_join d S\<rparr>"
proof -
  from assms(4) obtain k' where k': "(k', video m) \<in> set (fst (scan_files d files))"
    "map_of (snd (scan_files d files)) k' = Some (subtitle m)"
    by (auto simp: result_member)
  from k'(1) have v': "map_of (fst (scan_files d files)) k' = Some (video m)"
    by (simp add: videos_distinct)
  have "k' = k"
  proof (rule disjE [OF assms(5)])
    assume "(k, video m) \<in> set (fst (scan_files d files))"
    with k'(1) videos_entry [of k' "video m" d files] videos_entry [of k "video m" d files]
    obtain g g' where g: "g \<in> set files" "nameWithoutExt g = k" "video m = path_join d g"
      and g': "g' \<in> set files" "nameWithoutExt g' = k'" "video m = path_join d g'"
      by auto
    from g(1) g'(1) assms(1) have "valid_entry g" "valid_entry g'" by (simp_all add: list_all_iff)
    then have "basename (path_join d g) = g" "basename (path_join d g') = g'"
      by (simp_all add: basename_path_join)
    with g(3) g'(3) have "g = g'" by simp
    with g(2) g'(2) show ?thesis by simp
  next
    assume "map_of (snd (scan_files d files)) k = Some (subtitle m)"
    with k'(2) subtitles_entry [of d files k' "subtitle m"] subtitles_entry [of d files k "subtitle m"]
    obtain g g' where g: "g \<in> set files" "nameWithoutExt g = k" "subtitle m = path_join d g"
      and g': "g' \<in> set files" "nameWithoutExt g' = k'" "subtitle m = path_join d g'"
      by auto
    from g(1) g'(1) assms(1) have "valid_entry g" "valid_entry g'" by (simp_all add: list_all_iff)
    then have "basename (path_join d g) = g" "basename (path_join d g') = g'"
      by (simp_all add: basename_path_join)
    with g(3) g'(3) have "g = g'" by simp
    with g(2) g'(2) show ?thesis by simp
  qed
  with v' k'(2) assms(2,3) have "video m = path_join d V" "subtitle m = path_join d S"
    by (simp_all add: videos_lookup subtitles_lookup)
  then show ?thesis by simp
qed

text \<open>
  Claim C5. Within one class, a later entry with the same key replaces the path of an
  earlier one: each map holds, for a key, the path of the last entry of the class with
  that key. When \<open>V1\<close> is a video with key \<open>k\<close>, \<open>V2\<close> the last video with key \<open>k\<close> and
  \<open>S\<close> the last subtitle with key \<open>k\<close>, the pairs that involve \<open>V1\<close>, \<open>V2\<close> or \<open>S\<close> are
  exactly one pair, of \<open>V2\<close> and \<open>S\<close>.
\<close>

theorem last_wins:
  "map_get (fst (scan_files d files)) k = map_option (path_join d) (last_entry is_video k files) \<and>
   map_get (snd (scan_files d files)) k = map_option (path_join d) (last_entry is_subtitle k files) \<and>
   (list_all valid_entry files \<and> V1 \<in> set files \<and> is_video V1 \<and> nameWithoutExt V1 = k \<and>
    last_entry is_video k files = Some V2 \<and> last_entry is_subtitle k files = Some S \<longrightarrow>
      filter (\<lambda>m. video m = path_join d V1 \<or> video m = path_join d V2 \<or>
                  subtitle m = path_join d S) (findMatchingFiles d files) =
        [\<lparr>video = path_join d V2, subtitle = path_join d S\<rparr>])"
proof (intro conjI impI)
  show "map_get (fst (scan_files d files)) k = map_option (path_join d) (last_entry is_video k files)"
    by (simp add: map_get_def videos_lookup)
  show "map_get (snd (scan_files d files)) k = map_option (path_join d) (last_entry is_subtitle k files)"
    by (simp add: map_get_def subtitles_lookup)
next
  let ?R = "findMatchingFiles d files"
  let ?m0 = "\<lparr>video = path_join d V2, subtitle = path_join d S\<rparr>"
  let ?P = "\<lambda>m. video m = path_join d V1 \<or> video m = path_join d V2 \<or> subtitle m = path_join d S"
  assume a: "list_all valid_entry files \<and> V1 \<in> set files \<and> is_video V1 \<and> nameWithoutExt V1 = k \<and>
    last_entry is_video k files = Some V2 \<and> last_entry is_subtitle k files = Some S"
  then have valid: "list_all valid_entry files" and lv: "last_entry is_video k files = Some V2"
    and ls: "last_entry is_subtitle k files = Some S" by simp_all
  have vk: "map_of (fst (scan_files d files)) k = Some (path_join d V2)"
    and sk: "map_of (snd (scan_files d files)) k = Some (path_join d S)"
    using lv ls by (simp_all add: videos_lookup subtitles_lookup)
  from vk have vin: "(k, path_join d V2) \<in> set (fst (scan_files d files))"
    by (rule map_of_SomeD)
  have 1: "distinct ?R" using valid by (rule result_distinct)
  have 2: "?m0 \<in> set ?R" using vin sk by (auto simp: result_member)
  have 3: "?P ?m0" by simp
  have 4: "\<forall>y\<in>set ?R. ?P y \<longrightarrow> y = ?m0"
  proof (intro ballI impI)
    fix y assume y: "y \<in> set ?R" and p: "?P y"
    from y obtain k' where k': "(k', video y) \<in> set (fst (scan_files d files))"
      "map_of (snd (scan_files d files)) k' = Some (subtitle y)"
      by (auto simp: result_member)
    from a valid have v1: "valid_entry V1" by (simp add: list_all_iff)
    from last_entry_SomeD [OF lv] valid have v2: "valid_entry V2" by (simp add: list_all_iff)
    from last_entry_SomeD [OF lv] have kv2: "nameWithoutExt V2 = k" by simp
    from last_entry_SomeD [OF ls] valid have s: "valid_entry S" by (simp add: list_all_iff)
    from last_entry_SomeD [OF ls] have ks: "nameWithoutExt S = k" by simp
    from p have "(k, video y) \<in> set (fst (scan_files d files)) \<or>
         map_of (snd (scan_files d files)) k = Some (subtitle y)"
    proof (elim disjE)
      assume e: "video y = path_join d V1"
      with k'(1) videos_key_of_path [OF valid v1, of k' d] a have "k' = k" by simp
      with k'(1) show ?thesis by simp
    next
      assume e: "video y = path_join d V2"
      with k'(1) videos_key_of_path [OF valid v2, of k' d] kv2 have "k' = k" by simp
      with k'(1) show ?thesis by simp
    next
      assume e: "subtitle y = path_join d S"
      with k'(2) subtitles_key_of_path [OF valid s, of d k'] ks have "k' = k" by simp
      with k'(2) show ?thesis by simp
    qed
    with pair_of_key [OF valid lv ls y] show "y = ?m0" by simp
  qed
  show "filter ?P ?R = [?m0]" using 1 2 3 4 by (rule filter_singleton)
qed

theorem last_wins_witness:
  "list_all valid_entry [''a b.mp4'', ''x.txt'', ''A_B.mkv'', ''ab.srt''] \<and>
   ''a b.mp4'' \<in> set [''a b.mp4'', ''x.txt'', ''A_B.mkv'', ''ab.srt''] \<and>
   is_video ''a b.mp4'' \<and> nameWithoutExt ''a b.mp4'' = ''ab'' \<and>
   last_entry is_video ''ab'' [''a b.mp4'', ''x.txt'', ''A_B.mkv'', ''ab.srt''] = Some ''A_B.mkv'' \<and>
   last_entry is_subtitle ''ab'' [''a b.mp4'', ''x.txt'', ''A_B.mkv'', ''ab.srt''] = Some ''ab.srt'' \<and>
   filter (\<lambda>m. video m = path_join ''in'' ''a b.mp4'' \<or> video m = path_join ''in'' ''A_B.mkv'' \<or>
               subtitle m = path_join ''in'' ''ab.srt'')
     (findMatchingFiles ''in'' [''a b.mp4'', ''x.txt'', ''A_B.mkv'', ''ab.srt'']) =
     [\<lparr>video = path_join ''in'' ''A_B.mkv'', subtitle = path_join ''in'' ''ab.srt''\<rparr>] \<and>
   findMatchingFiles ''in'' [''a b.mp4'', ''x.txt'', ''A_B.mkv'', ''ab.srt''] =
     [\<lparr>video = ''in/A_B.mkv'', subtitle = ''in/ab.srt''\<rparr>]"
proof -
  let ?files = "[''a b.mp4'', ''x.txt'', ''A_B.mkv'', ''ab.srt'']"
  have v: "list_all valid_entry ?files" by code_simp
  have 1: "''a b.mp4'' \<in> set ?files" by simp
  have 2: "is_video ''a b.mp4''" by code_simp
  have 3: "nameWithoutExt ''a b.mp4'' = ''ab''" by code_simp
  have 4: "last_entry is_video ''ab'' ?files = Some ''A_B.mkv''" by code_simp
  have 5: "last_entry is_subtitle ''ab'' ?files = Some ''ab.srt''" by code_simp
  have 6: "findMatchingFiles ''in'' ?files = [\<lparr>video = ''in/A_B.mkv'', subtitle = ''in/ab.srt''\<rparr>]"
    by code_simp
  from last_wins [of "''in''" ?files "''ab''" "''a b.mp4''" "''A_B.mkv''" "''ab.srt''"] v 1 2 3 4 5
  have "filter (\<lambda>m. video m = path_join ''in'' ''a b.mp4'' \<or> video m = path_join ''in'' ''A_B.mkv'' \<or>
               subtitle m = path_join ''in'' ''ab.srt'') (findMatchingFiles ''in'' ?files) =
     [\<lparr>video = path_join ''in'' ''A_B.mkv'', subtitle = path_join ''in'' ''ab.srt''\<rparr>]"
    by blast
  with v 1 2 3 4 5 6 show ?thesis by blast
qed

lemma scan_entry_unclassified:
  assumes "toLowerCase (extname f) \<notin> set videoExtensions"
    and "toLowerCase (extname f) \<notin> set subtitleExtensions"
  shows "scan_entry d maps f = maps"
  using assms by (simp add: scan_entry_def Let_def)

text \<open>
  Claim C9. An entry whose lower-cased extension is in neither allow-list changes neither
  map; the maps and the matched pairs are those of the listing without the entry, and
  (among directory entry names) no pair holds the entry's path. The functions are total:
  no entry makes \<open>findMatchingFiles\<close> fail.
\<close>

theorem unclassified_entry_ignored:
  assumes "toLowerCase (extname f) \<notin> set videoExtensions"
    and "toLowerCase (extname f) \<notin> set subtitleExtensions"
  shows "scan_entry d maps f = maps \<and>
         scan_files d (xs @ f # ys) = scan_files d (xs @ ys) \<and>
         findMatchingFiles d (xs @ f # ys) = findMatchingFiles d (xs @ ys) \<and>
         (list_all valid_entry (xs @ f # ys) \<longrightarrow>
            path_join d f \<notin> video ` set (findMatchingFiles d (xs @ f # ys)) \<and>
            path_join d f \<notin> subtitle ` set (findMatchingFiles d (xs @ f # ys)))"
proof (intro conjI impI)
  show 1: "scan_entry d maps f = maps" using assms by (rule scan_entry_unclassified)
  show 2: "scan_files d (xs @ f # ys) = scan_files d (xs @ ys)"
    using assms by (simp add: scan_files_def scan_entry_unclassified)
  show "findMatchingFiles d (xs @ f # ys) = findMatchingFiles d (xs @ ys)"
    by (simp add: findMatchingFiles_def 2)
next
  let ?files = "xs @ f # ys"
  assume valid: "list_all valid_entry ?files"
  then have vf: "valid_entry f" by simp
  have nv: "\<not> is_video f" and ns: "\<not> is_subtitle f"
    using assms by (simp_all add: is_video_def is_subtitle_def)
  show "path_join d f \<notin> video ` set (findMatchingFiles d ?files)"
  proof
    assume "path_join d f \<in> video ` set (findMatchingFiles d ?files)"
    then obtain m k where "(k, path_join d f) \<in> set (fst (scan_files d ?files))"
      by (auto simp: result_member)
    from videos_entry [OF this] obtain g where
      g: "g \<in> set ?files" "is_video g" "path_join d f = path_join d g" by auto
    from g(1) valid have "valid_entry g" by (auto simp: list_all_iff)
    then have "basename (path_join d g) = g" by (rule basename_path_join)
    moreover have "basename (path_join d f) = f" using vf by (rule basename_path_join)
    ultimately have "f = g" using g(3) by simp
    with g(2) nv show False by simp
  qed
  show "path_join d f \<notin> subtitle ` set (findMatchingFiles d ?files)"
  proof
    assume "path_join d f \<in> subtitle ` set (findMatchingFiles d ?files)"
    then obtain m k where "map_of (snd (scan_files d ?files)) k = Some (path_join d f)"
      by (auto simp: result_member)
    from subtitles_entry [OF this] obtain g where
      g: "g \<in> set ?files" "is_subtitle g" "path_join d f = path_join d g" by auto
    from g(1) valid have "valid_entry g" by (auto simp: list_all_iff)
    then have "basename (path_join d g) = g" by (rule basename_path_join)
    moreover have "basename (path_join d f) = f" using vf by (rule basename_path_join)
    ultimately have "f = g" using g(3) by simp
    with g(2) ns show False by simp
  qed
qed

theorem unclassified_entry_ignored_witness:
  "toLowerCase (extname ''notes.TXT'') \<notin> set videoExtensions \<and>
   toLowerCase (extname ''notes.TXT'') \<notin> set subtitleExtensions \<and>
   list_all valid_entry ([''a.mp4''] @ ''notes.TXT'' # [''a.srt'']) \<and>
   scan_entry ''in'' ([(''a'', ''in/a.mp4'')], []) ''notes.TXT'' = ([(''a'', ''in/a.mp4'')], []) \<and>
   findMatchingFiles ''in'' ([''a.mp4''] @ ''notes.TXT'' # [''a.srt'']) =
     findMatchingFiles ''in'' ([''a.mp4''] @ [''a.srt'']) \<and>
   path_join ''in'' ''notes.TXT'' \<notin>
     video ` set (findMatchingFiles ''in'' ([''a.mp4''] @ ''notes.TXT'' # [''a.srt''])) \<and>
   path_join ''in'' ''notes.TXT'' \<notin>
     subtitle ` set (findMatchingFiles ''in'' ([''a.mp4''] @ ''notes.TXT'' # [''a.srt'']))"
proof -
  have 1: "toLowerCase (extname ''notes.TXT'') \<notin> set videoExtensions" by code_simp
  have 2: "toLowerCase (extname ''notes.TXT'') \<notin> set subtitleExtensions" by code_simp
  have 3: "list_all valid_entry ([''a.mp4''] @ ''notes.TXT'' # [''a.srt''])" by code_simp
  from unclassified_entry_ignored [OF 1 2, of "''in''" "([(''a'', ''in/a.mp4'')], [])" "[''a.mp4'']" "[''a.srt'']"]
    1 2 3
  show ?thesis by blast
qed

text \<open>
  Claim C10. The labels of the matched pairs of one directory, \<open>path.basename\<close> of each
  pair's video path, are pairwise distinct: each label is the entry's own name, and the
  entries of the video map have pairwise distinct keys, which are computed from the
  names. Hence the pairs themselves are pairwise distinct and a map keyed by label holds
  at most one entry per pair.
\<close>

theorem video_labels_distinct:
  assumes "list_all valid_entry files"
  shows "distinct (map (\<lambda>m. basename (video m)) (findMatchingFiles d files)) \<and>
         distinct (findMatchingFiles d files) \<and>
         map (\<lambda>m. nameWithoutExt (basename (video m))) (findMatchingFiles d files) =
           filter (\<lambda>k. map_get (snd (scan_files d files)) k \<noteq> None)
             (map fst (fst (scan_files d files)))"
proof (intro conjI)
  show "distinct (map (\<lambda>m. basename (video m)) (findMatchingFiles d files))"
    using assms by (rule result_labels_distinct)
  show "distinct (findMatchingFiles d files)" using assms by (rule result_distinct)
  let ?vids = "fst (scan_files d files)" and ?subs = "snd (scan_files d files)"
  have key: "nameWithoutExt (basename (snd e)) = fst e" if "e \<in> set ?vids" for e
  proof -
    from that have "(fst e, snd e) \<in> set ?vids" by simp
    from videos_entry [OF this] obtain g where
      g: "g \<in> set files" "nameWithoutExt g = fst e" "snd e = path_join d g" by auto
    from g(1) assms have "valid_entry g" by (simp add: list_all_iff)
    then have "basename (path_join d g) = g" by (rule basename_path_join)
    with g show ?thesis by simp
  qed
  have "map (\<lambda>m. nameWithoutExt (basename (video m))) (findMatchingFiles d files) =
        map (\<lambda>p. nameWithoutExt (basename p)) (map video (match_videos ?vids ?subs))"
    by (simp add: findMatchingFiles_def Let_def comp_def)
  also have "\<dots> = map (\<lambda>e. nameWithoutExt (basename (snd e)))
        (filter (\<lambda>(k, vp). map_of ?subs k \<noteq> None) ?vids)"
    by (simp add: match_videos_videos comp_def)
  also have "\<dots> = map fst (filter (\<lambda>(k, vp). map_of ?subs k \<noteq> None) ?vids)"
    by (rule map_cong [OF refl]) (simp add: key)
  also have "\<dots> = filter (\<lambda>k. map_get ?subs k \<noteq> None) (map fst ?vids)"
    by (simp add: filter_map comp_def map_get_def case_prod_unfold)
  finally show "map (\<lambda>m. nameWithoutExt (basename (video m))) (findMatchingFiles d files) =
           filter (\<lambda>k. map_get ?subs k \<noteq> None) (map fst ?vids)" .
qed

theorem video_labels_distinct_witness:
  "list_all valid_entry [''a.mp4'', ''A.mp4'', ''a.srt'', ''b.mkv'', ''B.srt'', ''c.avi''] \<and>
   map (\<lambda>m. basename (video m))
     (findMatchingFiles ''/data/in/'' [''a.mp4'', ''A.mp4'', ''a.srt'', ''b.mkv'', ''B.srt'', ''c.avi'']) =
     [''A.mp4'', ''b.mkv''] \<and>
   distinct (map (\<lambda>m. basename (video m))
     (findMatchingFiles ''/data/in/'' [''a.mp4'', ''A.mp4'', ''a.srt'', ''b.mkv'', ''B.srt'', ''c.avi'']))"
proof -
  let ?files = "[''a.mp4'', ''A.mp4'', ''a.srt'', ''b.mkv'', ''B.srt'', ''c.avi'']"
  have v: "list_all valid_entry ?files" by code_simp
  have e: "map (\<lambda>m. basename (video m)) (findMatchingFiles ''/data/in/'' ?files) =
     [''A.mp4'', ''b.mkv'']" by code_simp
  from video_labels_distinct [OF v, of "''/data/in/''"] v e show ?thesis by blast
qed

section \<open>The top level: directory failures and the empty run\<close>

text \<open>
  Claim C1, evaluated where it fails. When \<open>fs.mkdir\<close> or \<open>fs.readdir\<close> fails, the
  \<open>catch\<close> of \<open>batchProcess\<close> prints the error and \<open>batchProcess\<close> returns normally, so
  the \<open>catch\<close> of \<open>main\<close>, which calls \<open>process.exit(1)\<close>, is not reached: the run ends
  early with the error reported and with status 0.
\<close>

theorem directory_failure_exit_status:
  "actions (main failing_mkdir [''in'', ''out'']) =
     [Mkdir ''out'', LogBatchError (FsError ''EACCES'')] \<and>
   exit_status (main failing_mkdir [''in'', ''out'']) = None \<and>
   process_status (main failing_mkdir [''in'', ''out'']) = 0 \<and>
   actions (main failing_readdir [''in'', ''out'']) =
     [Mkdir ''out'', LogBatchError (FsError ''EACCES'')] \<and>
   exit_status (main failing_readdir [''in'', ''out'']) = None \<and>
   process_status (main failing_readdir [''in'', ''out'']) = 0"
  by code_simp

lemma deliver_idle:
  assumes "phase s = Finished" "tasks s = []"
  shows "deliver s e = s"
  using assms by (cases e) (simp_all add: deliver_def)

lemma run_idle:
  assumes "phase s = Finished" "tasks s = []"
  shows "run s es = s"
  using assms by (induction es) (simp_all add: run_def deliver_idle)

text \<open>
  Claim C8. When the input path is a directory, the output directory can be created, the
  input directory can be read and \<open>findMatchingFiles\<close> returns no pair, the run creates the
  output directory, prints the message and returns: \<open>process.exit\<close> is not called, the
  status is 0, and whatever events follow, the program does nothing more, so \<open>spawn\<close> is
  never called.
\<close>

theorem no_matches_run:
  assumes "stat_isDirectory fs inputDir = Inr True"
    and "mkdir fs outDir = None"
    and "readdir fs inputDir = Inr files"
    and "findMatchingFiles inputDir files = []"
  shows "actions (main fs [inputDir, outDir]) = [Mkdir outDir, LogNoMatches] \<and>
         exit_status (main fs [inputDir, outDir]) = None \<and>
         process_status (main fs [inputDir, outDir]) = 0 \<and>
         run (main fs [inputDir, outDir]) es = main fs [inputDir, outDir]"
proof -
  have m: "main fs [inputDir, outDir] = emit LogNoMatches (emit (Mkdir outDir) initial_state)"
    using assms by (simp add: main_def batchProcess_def)
  have 1: "phase (main fs [inputDir, outDir]) = Finished"
    and 2: "tasks (main fs [inputDir, outDir]) = []"
    by (simp_all add: m emit_def initial_state_def)
  from 1 2 have "run (main fs [inputDir, outDir]) es = main fs [inputDir, outDir]"
    by (rule run_idle)
  then show ?thesis
    by (simp add: m emit_def initial_state_def process_status_def)
qed

theorem no_matches_run_witness:
  "stat_isDirectory (listing [''a.mp4'', ''b.srt'', ''notes.txt'']) ''in'' = Inr True \<and>
   mkdir (listing [''a.mp4'', ''b.srt'', ''notes.txt'']) ''out'' = None \<and>
   readdir (listing [''a.mp4'', ''b.srt'', ''notes.txt'']) ''in'' =
     Inr [''a.mp4'', ''b.srt'', ''notes.txt''] \<and>
   findMatchingFiles ''in'' [''a.mp4'', ''b.srt'', ''notes.txt''] = [] \<and>
   actions (main (listing [''a.mp4'', ''b.srt'', ''notes.txt'']) [''in'', ''out'']) =
     [Mkdir ''out'', LogNoMatches] \<and>
   process_status (main (listing [''a.mp4'', ''b.srt'', ''notes.txt'']) [''in'', ''out'']) = 0 \<and>
   run (main (listing [''a.mp4'', ''b.srt'', ''notes.txt'']) [''in'', ''out''])
     [StdinData, Child 0 (Close (Some 0))] =
     main (listing [''a.mp4'', ''b.srt'', ''notes.txt'']) [''in'', ''out'']"
proof -
  let ?files = "[''a.mp4'', ''b.srt'', ''notes.txt'']"
  have 1: "stat_isDirectory (listing ?files) ''in'' = Inr True" by (simp add: listing_def)
  have 2: "mkdir (listing ?files) ''out'' = None" by (simp add: listing_def)
  have 3: "readdir (listing ?files) ''in'' = Inr ?files" by (simp add: listing_def)
  have 4: "findMatchingFiles ''in'' ?files = []" by code_simp
  from no_matches_run [OF 1 2 3 4, of "[StdinData, Child 0 (Close (Some 0))]"] 1 2 3 4
  show ?thesis by blast
qed

section \<open>The listeners of a child process\<close>

text \<open>
  Claim C2, evaluated where it fails. A child that cannot be launched emits \<open>error\<close> and
  then \<open>close\<close> (Node emits \<open>close\<close> after \<open>exit\<close>, or after \<open>error\<close> when the child
  failed to spawn; the exit code is then negative). Both listeners do the bookkeeping, so
  the one conversion is counted twice: \<open>completed\<close> is 2 of a \<open>total\<close> of 1. After a
  \<open>close\<close> alone, with status 0 or not, \<open>completed\<close> is 1.
\<close>

theorem launch_error_counted_twice:
  "total (run (main (listing [''a.mp4'', ''a.srt'']) [''in'', ''out''])
     [Child 0 (ProcessError ''spawn ffmpeg ENOENT''), Child 0 (Close (Some (- 2)))]) = 1 \<and>
   completed (run (main (listing [''a.mp4'', ''a.srt'']) [''in'', ''out''])
     [Child 0 (ProcessError ''spawn ffmpeg ENOENT'')]) = 1 \<and>
   completed (run (main (listing [''a.mp4'', ''a.srt'']) [''in'', ''out''])
     [Child 0 (ProcessError ''spawn ffmpeg ENOENT''), Child 0 (Close (Some (- 2)))]) = 2 \<and>
   results (run (main (listing [''a.mp4'', ''a.srt'']) [''in'', ''out''])
     [Child 0 (ProcessError ''spawn ffmpeg ENOENT''), Child 0 (Close (Some (- 2)))]) =
     [(''a.mp4'', False)] \<and>
   inProgress (run (main (listing [''a.mp4'', ''a.srt'']) [''in'', ''out''])
     [Child 0 (ProcessError ''spawn ffmpeg ENOENT''), Child 0 (Close (Some (- 2)))]) = [] \<and>
   completed (run (main (listing [''a.mp4'', ''a.srt'']) [''in'', ''out''])
     [Child 0 (Close (Some 0))]) = 1 \<and>
   completed (run (main (listing [''a.mp4'', ''a.srt'']) [''in'', ''out''])
     [Child 0 (Close (Some 1))]) = 1"
  by code_simp

text \<open>
  Claim C6, evaluated where it fails. For a source of 1000 seconds, the position 2
  seconds gives \<open>0.2\<close>, which is recorded. The position 3 seconds gives \<open>0.3\<close>, which
  differs from the recorded \<open>0.2\<close> by \<open>0.1\<close>; but the binary64 difference of \<open>0.3\<close> and
  \<open>0.2\<close> is below the binary64 value of \<open>0.1\<close>, so the listener neither records the new
  value nor prints: the state after the chunk is the state before it.
\<close>

theorem tenth_step_dropped:
  "map_get (inProgress (run (main (listing [''a.mp4'', ''a.srt'']) [''in'', ''out''])
     [Child 0 (StderrData ''Duration: 00:16:40.00''),
      Child 0 (StderrData ''time=00:00:02.00'')])) ''a.mp4'' = Some (2 / 10) \<and>
   toFixed1 (fmul (fdiv (hms_seconds (''00'', ''00'', ''03.00'')) (hms_seconds (''00'', ''16'', ''40.00''))) 100)
     = 3 / 10 \<and>
   fsub (to_number (3 / 10)) (to_number (2 / 10)) < fl (1 / 10) \<and>
   run (main (listing [''a.mp4'', ''a.srt'']) [''in'', ''out''])
     [Child 0 (StderrData ''Duration: 00:16:40.00''),
      Child 0 (StderrData ''time=00:00:02.00''),
      Child 0 (StderrData ''time=00:00:03.00'')] =
   run (main (listing [''a.mp4'', ''a.srt'']) [''in'', ''out''])
     [Child 0 (StderrData ''Duration: 00:16:40.00''),
      Child 0 (StderrData ''time=00:00:02.00'')] \<and>
   map_get (inProgress (run (main (listing [''a.mp4'', ''a.srt'']) [''in'', ''out''])
     [Child 0 (StderrData ''Duration: 00:16:40.00''),
      Child 0 (StderrData ''time=00:00:02.00''),
      Child 0 (StderrData ''time=00:00:03.00''),
      Child 0 (StderrData ''time=00:00:04.00'')])) ''a.mp4'' = Some (4 / 10)"
  by code_simp

section \<open>The progress parser\<close>

lemma emit_fields [simp]:
  "total (emit a s) = total s" "completed (emit a s) = completed s"
  "inProgress (emit a s) = inProgress s" "results (emit a s) = results s"
  "matches (emit a s) = matches s" "outputDir (emit a s) = outputDir s"
  "tasks (emit a s) = tasks s" "currentIndex (emit a s) = currentIndex s"
  "phase (emit a s) = phase s" "exit_status (emit a s) = exit_status s"
  "actions (emit a s) = actions s @ [a]"
  by (simp_all add: emit_def)

lemma printProgress_fields [simp]:
  "total (printProgress s) = total s" "completed (printProgress s) = completed s"
  "inProgress (printProgress s) = inProgress s" "results (printProgress s) = results s"
  "matches (printProgress s) = matches s" "outputDir (printProgress s) = outputDir s"
  "tasks (printProgress s) = tasks s" "currentIndex (printProgress s) = currentIndex s"
  "phase (printProgress s) = phase s" "exit_status (printProgress s) = exit_status s"
  by (simp_all add: printProgress_def)

lemma capture_duration_tasks:
  "tasks (capture_duration s i output) =
     (if duration (tasks s ! i) = 0 then
        (case regex_match ''Duration: '' output of
           None \<Rightarrow> tasks s
         | Some g \<Rightarrow> (tasks s)[i := (tasks s ! i)\<lparr>duration := hms_seconds g\<rparr>])
      else tasks s)"
  by (cases "regex_match ''Duration: '' output") (simp_all add: capture_duration_def Let_def)

lemma capture_duration_other [simp]:
  "inProgress (capture_duration s i output) = inProgress s"
  "completed (capture_duration s i output) = completed s"
  "results (capture_duration s i output) = results s"
  "total (capture_duration s i output) = total s"
  "matches (capture_duration s i output) = matches s"
  "outputDir (capture_duration s i output) = outputDir s"
  "currentIndex (capture_duration s i output) = currentIndex s"
  "phase (capture_duration s i output) = phase s"
  "exit_status (capture_duration s i output) = exit_status s"
  "length (tasks (capture_duration s i output)) = length (tasks s)"
  by (cases "regex_match ''Duration: '' output"; simp add: capture_duration_def Let_def)+

lemma capture_duration_task:
  assumes "i < length (tasks s)"
  shows "duration (tasks (capture_duration s i output) ! i) =
           (if duration (tasks s ! i) = 0
            then (case marker_seconds ''Duration: '' output of None \<Rightarrow> 0 | Some d \<Rightarrow> d)
            else duration (tasks s ! i))"
    and "lastProgress (tasks (capture_duration s i output) ! i) = lastProgress (tasks s ! i)"
    and "filename (tasks (capture_duration s i output) ! i) = filename (tasks s ! i)"
    and "settled (tasks (capture_duration s i output) ! i) = settled (tasks s ! i)"
  using assms
  by (simp_all add: capture_duration_tasks marker_seconds_def split: option.splits)

lemma capture_duration_no_marker:
  "regex_match ''Duration: '' output = None \<Longrightarrow> capture_duration s i output = s"
  by (simp add: capture_duration_def)

lemma update_progress_tasks:
  "tasks (update_progress s i p) =
     (if passes_throttle p (lastProgress (tasks s ! i))
      then (tasks s)[i := (tasks s ! i)\<lparr>lastProgress := to_number p\<rparr>]
      else tasks s)"
  by (simp add: update_progress_def)

lemma update_progress_inProgress:
  "inProgress (update_progress s i p) =
     (if passes_throttle p (lastProgress (tasks s ! i))
      then map_set (filename (tasks s ! i)) p (inProgress s)
      else inProgress s)"
  by (simp add: update_progress_def)

lemma update_progress_other [simp]:
  "completed (update_progress s i p) = completed s"
  "results (update_progress s i p) = results s"
  "total (update_progress s i p) = total s"
  "matches (update_progress s i p) = matches s"
  "outputDir (update_progress s i p) = outputDir s"
  "currentIndex (update_progress s i p) = currentIndex s"
  "phase (update_progress s i p) = phase s"
  "exit_status (update_progress s i p) = exit_status s"
  "length (tasks (update_progress s i p)) = length (tasks s)"
  by (simp_all add: update_progress_def)

lemma report_time_tasks:
  "tasks (report_time s i output) =
     (case marker_seconds ''time='' output of
        None \<Rightarrow> tasks s
      | Some pos \<Rightarrow>
          if 0 < duration (tasks s ! i) \<and>
             passes_throttle (toFixed1 (fmul (fdiv pos (duration (tasks s ! i))) 100))
               (lastProgress (tasks s ! i))
          then (tasks s)[i := (tasks s ! i)\<lparr>lastProgress :=
                  to_number (toFixed1 (fmul (fdiv pos (duration (tasks s ! i))) 100))\<rparr>]
          else tasks s)"
  by (cases "regex_match ''time='' output")
    (simp_all add: report_time_def marker_seconds_def update_progress_tasks)

lemma report_time_inProgress:
  "inProgress (report_time s i output) =
     (case marker_seconds ''time='' output of
        None \<Rightarrow> inProgress s
      | Some pos \<Rightarrow>
          if 0 < duration (tasks s ! i) \<and>
             passes_throttle (toFixed1 (fmul (fdiv pos (duration (tasks s ! i))) 100))
               (lastProgress (tasks s ! i))
          then map_set (filename (tasks s ! i))
                 (toFixed1 (fmul (fdiv pos (duration (tasks s ! i))) 100)) (inProgress s)
          else inProgress s)"
  by (cases "regex_match ''time='' output")
    (simp_all add: report_time_def marker_seconds_def update_progress_inProgress)

lemma report_time_other [simp]:
  "completed (report_time s i output) = completed s"
  "results (report_time s i output) = results s"
  "total (report_time s i output) = total s"
  "matches (report_time s i output) = matches s"
  "outputDir (report_time s i output) = outputDir s"
  "currentIndex (report_time s i output) = currentIndex s"
  "phase (report_time s i output) = phase s"
  "exit_status (report_time s i output) = exit_status s"
  "length (tasks (report_time s i output)) = length (tasks s)"
  by (cases "regex_match ''time='' output"; simp add: report_time_def)+

lemma report_time_task:
  assumes "i < length (tasks s)"
  shows "duration (tasks (report_time s i output) ! i) = duration (tasks s ! i)"
    and "filename (tasks (report_time s i output) ! i) = filename (tasks s ! i)"
    and "settled (tasks (report_time s i output) ! i) = settled (tasks s ! i)"
  using assms by (simp_all add: report_time_tasks split: option.splits)

lemma report_time_unknown_duration:
  "duration (tasks s ! i) = 0 \<Longrightarrow> report_time s i output = s"
  by (cases "regex_match ''time='' output") (simp_all add: report_time_def)

lemma on_stderr_task:
  assumes "i < length (tasks s)"
  shows "duration (tasks (on_stderr s i output) ! i) =
           (if duration (tasks s ! i) = 0
            then (case marker_seconds ''Duration: '' output of None \<Rightarrow> 0 | Some d \<Rightarrow> d)
            else duration (tasks s ! i))"
    and "filename (tasks (on_stderr s i output) ! i) = filename (tasks s ! i)"
    and "settled (tasks (on_stderr s i output) ! i) = settled (tasks s ! i)"
    and "length (tasks (on_stderr s i output)) = length (tasks s)"
  using assms by (simp_all add: on_stderr_def report_time_task capture_duration_task)

lemma feed_Cons: "feed s i (output # chunks) = feed (on_stderr s i output) i chunks"
  by (simp add: feed_def)

lemma feed_snoc: "feed s i (chunks @ [output]) = on_stderr (feed s i chunks) i output"
  by (simp add: feed_def)

lemma feed_task:
  assumes "i < length (tasks s)"
  shows "length (tasks (feed s i chunks)) = length (tasks s) \<and>
         filename (tasks (feed s i chunks) ! i) = filename (tasks s ! i) \<and>
         settled (tasks (feed s i chunks) ! i) = settled (tasks s ! i) \<and>
         duration (tasks (feed s i chunks) ! i) =
           (if duration (tasks s ! i) \<noteq> 0 then duration (tasks s ! i)
            else first_nonzero (duration_markers chunks))"
  using assms
proof (induction chunks arbitrary: s)
  case Nil
  then show ?case by (simp add: feed_def)
next
  case (Cons c chunks)
  from Cons.prems have l: "i < length (tasks (on_stderr s i c))"
    by (simp add: on_stderr_task)
  from Cons.IH [OF l] Cons.prems show ?case
    by (simp add: feed_Cons on_stderr_task split: option.splits)
qed

lemma feed_no_marker:
  assumes "duration (tasks s ! i) = 0" "duration_markers chunks = []"
  shows "feed s i chunks = s"
  using assms
proof (induction chunks arbitrary: s)
  case Nil
  then show ?case by (simp add: feed_def)
next
  case (Cons c chunks)
  from Cons.prems(2) have n: "regex_match ''Duration: '' c = None"
    and r: "duration_markers chunks = []"
    by (simp_all add: marker_seconds_def split: option.splits)
  have "on_stderr s i c = s"
    using Cons.prems(1) n
    by (simp add: on_stderr_def capture_duration_no_marker report_time_unknown_duration)
  with Cons.IH [OF Cons.prems(1) r] show ?case by (simp add: feed_Cons)
qed

lemma feed_zero_markers:
  assumes "i < length (tasks s)" "duration (tasks s ! i) = 0"
    and "first_nonzero (duration_markers chunks) = 0"
  shows "inProgress (feed s i chunks) = inProgress s"
  using assms
proof (induction chunks arbitrary: s)
  case Nil
  then show ?case by (simp add: feed_def)
next
  case (Cons c chunks)
  let ?s1 = "capture_duration s i c"
  from Cons.prems(3) have z: "(case marker_seconds ''Duration: '' c of None \<Rightarrow> 0 | Some d \<Rightarrow> d) = 0"
    and r: "first_nonzero (duration_markers chunks) = 0"
    by (auto split: option.splits if_splits)
  have d1: "duration (tasks ?s1 ! i) = 0"
    using Cons.prems(1,2) z by (simp add: capture_duration_task)
  then have e: "on_stderr s i c = ?s1"
    by (simp add: on_stderr_def report_time_unknown_duration)
  have l: "i < length (tasks (on_stderr s i c))"
    using Cons.prems(1) by (simp add: on_stderr_task)
  from Cons.IH [OF l _ r] d1 e show ?case by (simp add: feed_Cons)
qed

lemma duration_markers_append:
  "duration_markers (xs @ ys) = duration_markers xs @ duration_markers ys"
  by (induction xs) (simp_all split: option.splits)

lemma feed_last_chunk:
  assumes "i < length (tasks s)" "duration (tasks s ! i) = 0"
  shows "inProgress (feed s i (chunks @ [output])) =
     (case marker_seconds ''time='' output of
        None \<Rightarrow> inProgress (feed s i chunks)
      | Some pos \<Rightarrow>
          if 0 < first_nonzero (duration_markers (chunks @ [output])) \<and>
             passes_throttle
               (toFixed1 (fmul (fdiv pos (first_nonzero (duration_markers (chunks @ [output])))) 100))
               (lastProgress (tasks (feed s i chunks) ! i))
          then map_set (filename (tasks s ! i))
                 (toFixed1 (fmul (fdiv pos (first_nonzero (duration_markers (chunks @ [output])))) 100))
                 (inProgress (feed s i chunks))
          else inProgress (feed s i chunks))"
proof -
  let ?s1 = "feed s i chunks"
  let ?s2 = "capture_duration ?s1 i output"
  from feed_task [OF assms(1), of chunks]
  have l1: "i < length (tasks ?s1)" and f1: "filename (tasks ?s1 ! i) = filename (tasks s ! i)"
    using assms(1) by simp_all
  from feed_task [OF assms(1), of "chunks @ [output]"] assms(2)
  have "duration (tasks (feed s i (chunks @ [output])) ! i) =
      first_nonzero (duration_markers (chunks @ [output]))" by simp
  then have d2: "duration (tasks ?s2 ! i) = first_nonzero (duration_markers (chunks @ [output]))"
    using l1 by (simp add: feed_snoc on_stderr_def report_time_task)
  have p2: "lastProgress (tasks ?s2 ! i) = lastProgress (tasks ?s1 ! i)"
    and f2: "filename (tasks ?s2 ! i) = filename (tasks s ! i)"
    using l1 f1 by (simp_all add: capture_duration_task)
  show ?thesis
    by (simp add: feed_snoc on_stderr_def report_time_inProgress d2 p2 f2
        cong: option.case_cong if_cong)
qed

section \<open>Rounding\<close>

lemma floor_log2_nonneg: "0 \<le> floor_log2 n"
proof (induction n rule: floor_log2.induct)
  case (1 n)
  show ?case
  proof (cases "n \<le> 1")
    case True
    then show ?thesis by (subst floor_log2.simps) simp
  next
    case False
    with 1 have "0 \<le> floor_log2 (n div 2)" by simp
    with False show ?thesis by (subst floor_log2.simps) simp
  qed
qed

lemma floor_log2_bounds:
  "1 \<le> n \<Longrightarrow> 2 ^ nat (floor_log2 n) \<le> n \<and> n < 2 * 2 ^ nat (floor_log2 n)"
proof (induction n rule: floor_log2.induct)
  case (1 n)
  show ?case
  proof (cases "n \<le> 1")
    case True
    with "1.prems" have "n = 1" by simp
    then show ?thesis by (subst (1 2) floor_log2.simps) simp
  next
    case False
    then have h: "1 \<le> n div 2" by simp
    define k where "k = nat (floor_log2 (n div 2))"
    from "1.IH" [OF False h] have b: "2 ^ k \<le> n div 2" "n div 2 < 2 * 2 ^ k"
      by (simp_all add: k_def)
    have e: "floor_log2 n = 1 + floor_log2 (n div 2)"
      using False by (subst floor_log2.simps) simp
    have n: "nat (floor_log2 n) = Suc k"
      using floor_log2_nonneg [of "n div 2"] by (simp add: e k_def)
    have "2 * (n div 2) \<le> n" "n < 2 * (n div 2) + 2" by simp_all
    with b show ?thesis unfolding n by simp
  qed
qed

lemma ilog2_bounds:
  assumes "0 < x"
  shows "2 powi ilog2 x \<le> x \<and> x < 2 powi (ilog2 x + 1)"
proof (cases "1 \<le> x")
  case True
  define n where "n = \<lfloor>x\<rfloor>"
  define k where "k = nat (floor_log2 n)"
  have n1: "1 \<le> n" using True by (simp add: n_def)
  from floor_log2_bounds [OF n1] have b: "2 ^ k \<le> n" "n < 2 * 2 ^ k" by (simp_all add: k_def)
  have e: "ilog2 x = int k"
    using True floor_log2_nonneg [of n] by (simp add: ilog2_def n_def k_def)
  have a1: "(of_int n :: rat) \<le> x" by (simp add: n_def)
  have "(of_int (2 ^ k) :: rat) \<le> of_int n" using b(1) by (simp only: of_int_le_iff)
  then have a2: "(2 :: rat) ^ k \<le> of_int n" by simp
  from a2 a1 have 1: "(2 :: rat) ^ k \<le> x" by (rule order_trans)
  have a3: "x < of_int n + 1" using floor_correct [of x] by (simp add: n_def)
  have "n + 1 \<le> 2 * 2 ^ k" using b(2) by simp
  then have "(of_int (n + 1) :: rat) \<le> of_int (2 * 2 ^ k)" by (simp only: of_int_le_iff)
  then have a4: "(of_int n :: rat) + 1 \<le> 2 * 2 ^ k" by simp
  from a3 a4 have 2: "x < 2 * 2 ^ k" by (rule less_le_trans)
  have p: "(2 :: rat) powi (int k + 1) = 2 * 2 ^ k" by (simp add: power_int_add)
  show ?thesis unfolding e p using 1 2 by simp
next
  case False
  define y where "y = 1 / x"
  define m where "m = \<lceil>y\<rceil>"
  define k where "k = nat (floor_log2 (m - 1))"
  have y1: "1 < y" using False assms by (simp add: y_def)
  then have m2: "2 \<le> m" unfolding m_def by (simp add: le_ceiling_iff)
  then have n1: "1 \<le> m - 1" by simp
  from floor_log2_bounds [OF n1] have b: "2 ^ k \<le> m - 1" "m - 1 < 2 * 2 ^ k"
    by (simp_all add: k_def)
  have e: "ilog2 x = - (1 + int k)"
    using False floor_log2_nonneg [of "m - 1"] by (simp add: ilog2_def y_def m_def k_def)
  have "m \<le> 2 * 2 ^ k" using b(2) by simp
  then have "(of_int m :: rat) \<le> of_int (2 * 2 ^ k)" by (simp only: of_int_le_iff)
  then have a1: "(of_int m :: rat) \<le> 2 * 2 ^ k" by simp
  have a2: "y \<le> of_int m" by (simp add: m_def)
  from a2 a1 have u: "y \<le> 2 * 2 ^ k" by (rule order_trans)
  have "2 ^ k < m" using b(1) by simp
  then have "\<not> m \<le> 2 ^ k" by simp
  then have "\<not> y \<le> of_int (2 ^ k)" unfolding m_def by (simp add: ceiling_le_iff)
  then have "\<not> y \<le> 2 ^ k" by simp
  then have l: "2 ^ k < y" by (simp only: not_le)
  have x: "x = 1 / y" using assms by (simp add: y_def)
  have ypos: "0 < y" using y1 by simp
  have kpos: "(0 :: rat) < 2 ^ k" by simp
  have 1: "1 / (2 * 2 ^ k) \<le> x"
    unfolding x using u ypos by (intro divide_left_mono) simp_all
  have yk: "0 < y * 2 ^ k" using ypos kpos by (rule mult_pos_pos)
  have 2: "x < 1 / 2 ^ k"
    unfolding x using l yk by (intro divide_strict_left_mono) simp_all
  have q1: "(2 :: rat) powi (1 + int k) = 2 * 2 ^ k" by (simp add: power_int_add)
  have "(2 :: rat) powi (- (1 + int k)) = inverse (2 powi (1 + int k))"
    by (rule power_int_minus)
  then have p1: "(2 :: rat) powi (- (1 + int k)) = 1 / (2 * 2 ^ k)"
    by (simp only: q1 inverse_eq_divide)
  have "- (1 + int k) + 1 = - int k" by simp
  then have "(2 :: rat) powi (- (1 + int k) + 1) = inverse (2 powi (int k))"
    by (simp only: power_int_minus)
  then have p2: "(2 :: rat) powi (- (1 + int k) + 1) = 1 / 2 ^ k"
    by (simp only: power_int_of_nat inverse_eq_divide)
  show ?thesis unfolding e p1 p2 using 1 2 by simp
qed

lemma round_half_even_error: "\<bar>of_int (round_half_even q) - q\<bar> \<le> 1 / 2"
proof -
  have "of_int \<lfloor>q\<rfloor> \<le> q" "q < of_int \<lfloor>q\<rfloor> + 1"
    using floor_correct [of q] by simp_all
  then show ?thesis by (auto simp: round_half_even_def Let_def abs_le_iff)
qed

lemma fl_error: "\<bar>fl x - x\<bar> \<le> \<bar>x\<bar> / 2 ^ 53"
proof (cases "x = 0")
  case True
  then show ?thesis by (simp add: fl_def)
next
  case False
  define e where "e = ilog2 \<bar>x\<bar>"
  define u :: rat where "u = 2 powi (e - 52)"
  have upos: "0 < u" by (simp add: u_def)
  from False have "0 < \<bar>x\<bar>" by simp
  from ilog2_bounds [OF this] have lo: "2 powi e \<le> \<bar>x\<bar>" by (simp add: e_def)
  have f: "fl x = of_int (round_half_even (x / u)) * u"
    using False by (simp add: fl_def Let_def e_def u_def)
  have "fl x - x = (of_int (round_half_even (x / u)) - x / u) * u"
    using upos by (simp add: f field_simps)
  then have "\<bar>fl x - x\<bar> = \<bar>of_int (round_half_even (x / u)) - x / u\<bar> * u"
    using upos by (simp add: abs_mult)
  also have "\<dots> \<le> 1 / 2 * u"
    using round_half_even_error [of "x / u"] upos by (intro mult_right_mono) simp_all
  also have "\<dots> = 2 powi e / 2 ^ 53"
    by (simp add: u_def power_int_diff)
  also have "\<dots> \<le> \<bar>x\<bar> / 2 ^ 53"
    using lo by (simp add: divide_right_mono)
  finally show ?thesis .
qed

lemma round_half_even_nonneg: "0 \<le> q \<Longrightarrow> 0 \<le> round_half_even q"
  by (auto simp: round_half_even_def Let_def)

lemma fl_nonneg: "0 \<le> x \<Longrightarrow> 0 \<le> fl x"
  by (simp add: fl_def Let_def round_half_even_nonneg)

lemma toFixed1_error:
  assumes "\<bar>x\<bar> < 10 ^ 21"
  shows "\<bar>toFixed1 x - x\<bar> \<le> 1 / 20"
proof -
  define a where "a = \<bar>x\<bar>"
  define n where "n = \<lfloor>a * 10 + 1 / 2\<rfloor>"
  define r :: rat where "r = of_int n"
  have "r \<le> a * 10 + 1 / 2" "a * 10 + 1 / 2 < r + 1"
    using floor_correct [of "a * 10 + 1 / 2"] by (simp_all add: n_def r_def)
  then have "r / 10 - a \<le> 1 / 20" "- (1 / 20) \<le> r / 10 - a" by linarith+
  then have b: "\<bar>r / 10 - a\<bar> \<le> 1 / 20" by linarith
  have t: "toFixed1 x = sgn x * (r / 10)"
    using assms by (simp add: toFixed1_def n_def r_def a_def)
  have "x = sgn x * a" by (simp add: a_def mult_sgn_abs)
  then have "toFixed1 x - x = sgn x * (r / 10 - a)"
    by (simp add: t right_diff_distrib)
  then have "\<bar>toFixed1 x - x\<bar> = \<bar>sgn x\<bar> * \<bar>r / 10 - a\<bar>"
    by (simp add: abs_mult)
  also have "\<dots> \<le> 1 * \<bar>r / 10 - a\<bar>"
    by (intro mult_right_mono) (simp_all add: abs_sgn_eq)
  finally show ?thesis using b by simp
qed

lemma percentage_error:
  assumes "0 \<le> pos" "0 < d"
  shows "\<bar>fmul (fdiv pos d) 100 - 100 * pos / d\<bar> \<le> (100 * pos / d) / 2 ^ 51"
proof -
  define q where "q = pos / d"
  define x1 where "x1 = fl q"
  define eps :: rat where "eps = 1 / 2 ^ 53"
  have q0: "0 \<le> q" using assms by (simp add: q_def)
  have e1: "\<bar>x1 - q\<bar> \<le> q * eps"
    using fl_error [of q] q0 by (simp add: x1_def eps_def)
  have x0: "0 \<le> x1" using q0 by (simp add: x1_def fl_nonneg)
  have x1le: "x1 \<le> q * (1 + eps)" using e1 by (simp add: abs_le_iff algebra_simps)
  have e2: "\<bar>fl (x1 * 100) - x1 * 100\<bar> \<le> x1 * 100 * eps"
    using fl_error [of "x1 * 100"] x0 by (simp add: eps_def abs_mult)
  have eps0: "0 \<le> eps" by (simp add: eps_def)
  have "x1 * 100 * eps \<le> q * (1 + eps) * 100 * eps"
    using x1le eps0 by (intro mult_right_mono) simp_all
  with e2 have e3: "\<bar>fl (x1 * 100) - x1 * 100\<bar> \<le> q * (1 + eps) * 100 * eps" by simp
  have "\<bar>fl (x1 * 100) - 100 * q\<bar> \<le> \<bar>fl (x1 * 100) - x1 * 100\<bar> + \<bar>x1 * 100 - 100 * q\<bar>"
    by simp
  also have "\<bar>x1 * 100 - 100 * q\<bar> = 100 * \<bar>x1 - q\<bar>"
  proof -
    have "\<bar>x1 * 100 - 100 * q\<bar> = \<bar>100 * (x1 - q)\<bar>" by (simp add: algebra_simps)
    also have "\<dots> = \<bar>100\<bar> * \<bar>x1 - q\<bar>" by (rule abs_mult)
    finally show ?thesis by simp
  qed
  finally have "\<bar>fl (x1 * 100) - 100 * q\<bar> \<le> q * (1 + eps) * 100 * eps + 100 * (q * eps)"
    using e3 e1 by simp
  also have "\<dots> = 100 * q * (eps * (2 + eps))" by (simp add: algebra_simps)
  also have "\<dots> \<le> 100 * q * (1 / 2 ^ 51)"
  proof (intro mult_left_mono)
    show "eps * (2 + eps) \<le> 1 / 2 ^ 51" by (simp add: eps_def)
    show "0 \<le> 100 * q" using q0 by simp
  qed
  finally show ?thesis by (simp add: fmul_def fdiv_def x1_def q_def)
qed

lemma digit_value_nonneg: "is_digit c \<Longrightarrow> 0 \<le> digit_value c"
proof -
  assume "is_digit c"
  then have "48 \<le> (of_char c :: nat)" by (simp add: is_digit_def)
  then have "int 48 \<le> int (of_char c)" by (simp only: of_nat_le_iff)
  moreover have "int (of_char c) = (of_char c :: int)" by (rule of_nat_of_char)
  ultimately show ?thesis by (simp add: digit_value_def)
qed

lemma regex_match_SomeD: "regex_match lit chunk = Some g \<Longrightarrow> \<exists>s. match_hms s = Some g"
  by (induction chunk) (auto split: if_splits)

lemma parseFloat2_nonneg:
  "is_digit (g ! 0) \<Longrightarrow> is_digit (g ! 1) \<Longrightarrow> 0 \<le> parseFloat2 g"
  unfolding parseFloat2_def
  by (intro fl_nonneg) (simp add: digit_value_nonneg)

lemma parseFloat5_nonneg:
  assumes "is_digit (g ! 0)" "is_digit (g ! 1)" "is_digit (g ! 3)" "is_digit (g ! 4)"
  shows "0 \<le> parseFloat5 g"
proof -
  define a where "a = 10 * digit_value (g ! 0) + digit_value (g ! 1)"
  define b where "b = 10 * digit_value (g ! 3) + digit_value (g ! 4)"
  have a: "0 \<le> a" and b: "0 \<le> b"
    using assms by (simp_all add: a_def b_def digit_value_nonneg)
  have w: "is_digit (g ! 2) \<Longrightarrow> 0 \<le> digit_value (g ! 2)" by (rule digit_value_nonneg)
  have "0 \<le> (if g ! 2 = CHR ''.'' then of_int a + of_int b / 100
             else if is_digit (g ! 2) then of_int (1000 * a + 100 * digit_value (g ! 2) + b)
             else if g ! 2 = CHR ''e'' \<or> g ! 2 = CHR ''E'' then of_int a * 10 ^ nat b
             else (of_int a :: rat))"
    using a b w by auto
  then show ?thesis
    unfolding parseFloat5_def Let_def a_def [symmetric] b_def [symmetric] by (rule fl_nonneg)
qed

lemma match_hms_nonneg:
  assumes "match_hms s = Some g"
  shows "0 \<le> hms_seconds g"
proof -
  from assms have len: "11 \<le> length s"
    and d: "is_digit (s ! 0)" "is_digit (s ! 1)" "is_digit (s ! 3)" "is_digit (s ! 4)"
      "is_digit (s ! 6)" "is_digit (s ! 7)" "is_digit (s ! 9)" "is_digit (s ! 10)"
    and g: "g = (take 2 s, take 2 (drop 3 s), take 5 (drop 6 s))"
    by (auto simp: match_hms_def split: if_splits)
  have h: "0 \<le> parseFloat2 (take 2 s)"
    using d len by (intro parseFloat2_nonneg) simp_all
  have m: "0 \<le> parseFloat2 (take 2 (drop 3 s))"
    using d len by (intro parseFloat2_nonneg) simp_all
  have sec: "0 \<le> parseFloat5 (take 5 (drop 6 s))"
    using d len by (intro parseFloat5_nonneg) simp_all
  have 1: "0 \<le> fmul (parseFloat2 (take 2 s)) 3600"
    unfolding fmul_def using h by (intro fl_nonneg) simp
  have 2: "0 \<le> fmul (parseFloat2 (take 2 (drop 3 s))) 60"
    unfolding fmul_def using m by (intro fl_nonneg) simp
  have 3: "0 \<le> fadd (fmul (parseFloat2 (take 2 s)) 3600) (fmul (parseFloat2 (take 2 (drop 3 s))) 60)"
    unfolding fadd_def using 1 2 by (intro fl_nonneg) simp
  show ?thesis
    unfolding g hms_seconds.simps fadd_def [of _ "parseFloat5 _"] using 3 sec
    by (intro fl_nonneg) simp
qed

lemma marker_seconds_nonneg: "marker_seconds lit output = Some pos \<Longrightarrow> 0 \<le> pos"
  by (auto simp: marker_seconds_def dest!: regex_match_SomeD match_hms_nonneg)

text \<open>
  The parser, chunk by chunk. The listener matches each chunk on its own, so a marker is
  the leftmost match inside one chunk. From the start of a conversion (\<open>duration = 0\<close>),
  the duration after the chunks is the value of the first chunk marker that is not zero; chunks
  without a \<open>Duration\<close> marker change nothing, and chunks without a non-zero one record no
  progress; after a chunk with a \<open>time=\<close> marker, when the duration is positive and the
  throttle lets the value pass, the recorded value is \<open>toFixed(1)\<close> of the binary64 value
  of \<open>position / duration * 100\<close>, which is within \<open>1/20\<close> plus the rounding error of the
  two operations of \<open>100 * position / duration\<close>.
\<close>

theorem progress_parser:
  assumes "i < length (tasks s)" "duration (tasks s ! i) = 0"
  shows "duration (tasks (feed s i chunks) ! i) = first_nonzero (duration_markers chunks) \<and>
    (duration_markers chunks = [] \<longrightarrow> feed s i chunks = s) \<and>
    (first_nonzero (duration_markers chunks) = 0 \<longrightarrow>
       inProgress (feed s i chunks) = inProgress s) \<and>
    inProgress (feed s i (chunks @ [output])) =
      (case marker_seconds ''time='' output of
         None \<Rightarrow> inProgress (feed s i chunks)
       | Some pos \<Rightarrow>
           if 0 < first_nonzero (duration_markers (chunks @ [output])) \<and>
              passes_throttle
                (toFixed1 (fmul (fdiv pos (first_nonzero (duration_markers (chunks @ [output])))) 100))
                (lastProgress (tasks (feed s i chunks) ! i))
           then map_set (filename (tasks s ! i))
                  (toFixed1 (fmul (fdiv pos (first_nonzero (duration_markers (chunks @ [output])))) 100))
                  (inProgress (feed s i chunks))
           else inProgress (feed s i chunks)) \<and>
    (marker_seconds ''time='' output = Some pos \<and> 0 < d \<and> fmul (fdiv pos d) 100 < 10 ^ 21 \<longrightarrow>
       \<bar>toFixed1 (fmul (fdiv pos d) 100) - 100 * pos / d\<bar> \<le> 1 / 20 + (100 * pos / d) / 2 ^ 51)"
proof (intro conjI impI)
  show "duration (tasks (feed s i chunks) ! i) = first_nonzero (duration_markers chunks)"
    using feed_task [OF assms(1), of chunks] assms(2) by simp
  show "feed s i chunks = s" if "duration_markers chunks = []"
    using assms(2) that by (rule feed_no_marker)
  show "inProgress (feed s i chunks) = inProgress s"
    if "first_nonzero (duration_markers chunks) = 0"
    using assms that by (rule feed_zero_markers)
  show "inProgress (feed s i (chunks @ [output])) =
      (case marker_seconds ''time='' output of
         None \<Rightarrow> inProgress (feed s i chunks)
       | Some pos \<Rightarrow>
           if 0 < first_nonzero (duration_markers (chunks @ [output])) \<and>
              passes_throttle
                (toFixed1 (fmul (fdiv pos (first_nonzero (duration_markers (chunks @ [output])))) 100))
                (lastProgress (tasks (feed s i chunks) ! i))
           then map_set (filename (tasks s ! i))
                  (toFixed1 (fmul (fdiv pos (first_nonzero (duration_markers (chunks @ [output])))) 100))
                  (inProgress (feed s i chunks))
           else inProgress (feed s i chunks))"
    using assms by (rule feed_last_chunk)
next
  assume a: "marker_seconds ''time='' output = Some pos \<and> 0 < d \<and> fmul (fdiv pos d) 100 < 10 ^ 21"
  then have p: "0 \<le> pos" by (auto dest: marker_seconds_nonneg)
  from a have d: "0 < d" by simp
  let ?x = "fmul (fdiv pos d) 100"
  have "0 \<le> fdiv pos d" unfolding fdiv_def using p d by (intro fl_nonneg) simp
  then have "0 \<le> ?x" unfolding fmul_def by (intro fl_nonneg) simp
  with a have "\<bar>?x\<bar> < 10 ^ 21" by simp
  then have 1: "\<bar>toFixed1 ?x - ?x\<bar> \<le> 1 / 20" by (rule toFixed1_error)
  from p d have 2: "\<bar>?x - 100 * pos / d\<bar> \<le> (100 * pos / d) / 2 ^ 51" by (rule percentage_error)
  have "\<bar>toFixed1 ?x - 100 * pos / d\<bar> \<le> \<bar>toFixed1 ?x - ?x\<bar> + \<bar>?x - 100 * pos / d\<bar>"
    by simp
  with 1 2 show "\<bar>toFixed1 ?x - 100 * pos / d\<bar> \<le> 1 / 20 + (100 * pos / d) / 2 ^ 51"
    by linarith
qed

theorem progress_parser_witness:
  "0 < length (tasks (main (listing [''a.mp4'', ''a.srt'']) [''in'', ''out''])) \<and>
   duration (tasks (main (listing [''a.mp4'', ''a.srt'']) [''in'', ''out'']) ! 0) = 0 \<and>
   duration (tasks (feed (main (listing [''a.mp4'', ''a.srt'']) [''in'', ''out'']) 0
     [''Duration: 00:00:00.00'', ''frame=1'', ''  Duration: 00:01:40.00, start: 0.000000'',
      ''Duration: 00:05:00.00'']) ! 0) = 100 \<and>
   duration_markers [''frame=1'', ''time=00:00:01.00''] = [] \<and>
   feed (main (listing [''a.mp4'', ''a.srt'']) [''in'', ''out'']) 0
     [''frame=1'', ''time=00:00:01.00''] =
     main (listing [''a.mp4'', ''a.srt'']) [''in'', ''out''] \<and>
   first_nonzero (duration_markers [''Duration: 00:00:00.00'', ''time=00:00:01.00'']) = 0 \<and>
   inProgress (feed (main (listing [''a.mp4'', ''a.srt'']) [''in'', ''out'']) 0
     [''Duration: 00:00:00.00'', ''time=00:00:01.00'']) = [(''a.mp4'', 0)] \<and>
   inProgress (feed (main (listing [''a.mp4'', ''a.srt'']) [''in'', ''out'']) 0
     ([''Duration: 00:01:40.00''] @ [''frame=9 time=00:00:50.00 bitrate''])) = [(''a.mp4'', 50)] \<and>
   marker_seconds ''time='' ''frame=9 time=00:00:50.00 bitrate'' = Some 50 \<and>
   \<bar>toFixed1 (fmul (fdiv 50 100) 100) - 100 * 50 / 100\<bar> \<le> 1 / 20 + (100 * 50 / 100) / 2 ^ 51"
proof -
  let ?s = "main (listing [''a.mp4'', ''a.srt'']) [''in'', ''out'']"
  let ?c1 = "[''Duration: 00:00:00.00'', ''frame=1'', ''  Duration: 00:01:40.00, start: 0.000000'',
      ''Duration: 00:05:00.00'']"
  let ?c2 = "[''frame=1'', ''time=00:00:01.00'']"
  let ?c3 = "[''Duration: 00:00:00.00'', ''time=00:00:01.00'']"
  let ?o = "''frame=9 time=00:00:50.00 bitrate''"
  have h1: "0 < length (tasks ?s)" by code_simp
  have h2: "duration (tasks ?s ! 0) = 0" by code_simp
  have i0: "inProgress ?s = [(''a.mp4'', 0)]" by code_simp
  have e1: "first_nonzero (duration_markers ?c1) = 100" by code_simp
  have e2: "duration_markers ?c2 = []" by code_simp
  have e3: "first_nonzero (duration_markers ?c3) = 0" by code_simp
  have e4: "marker_seconds ''time='' ?o = Some 50" by code_simp
  have e12: "fmul (fdiv 50 100) 100 < 10 ^ 21" by code_simp
  note t1 = progress_parser [OF h1 h2, of ?c1]
  note t2 = progress_parser [OF h1 h2, of ?c2]
  note t3 = progress_parser [OF h1 h2, of ?c3]
  note t4 = progress_parser [OF h1 h2, of "[''Duration: 00:01:40.00'']" ?o 50 100]
  have r1: "duration (tasks (feed ?s 0 ?c1) ! 0) = 100" using t1 e1 by simp
  have r2: "feed ?s 0 ?c2 = ?s" using t2 e2 by blast
  have r3: "inProgress (feed ?s 0 ?c3) = [(''a.mp4'', 0)]" using t3 e3 i0 by simp
  have r4: "inProgress (feed ?s 0 ([''Duration: 00:01:40.00''] @ [?o])) = [(''a.mp4'', 50)]"
    by code_simp
  have r5: "\<bar>toFixed1 (fmul (fdiv 50 100) 100) - 100 * 50 / 100\<bar>
      \<le> 1 / 20 + (100 * 50 / 100) / 2 ^ 51"
    using t4 [THEN conjunct2, THEN conjunct2, THEN conjunct2, THEN conjunct2] e4 e12 by simp
  from h1 h2 r1 e2 r2 e3 r3 r4 e4 r5 show ?thesis by blast
qed

text \<open>
  Claim C3, evaluated where it fails. The listener keeps the duration in a variable that
  starts at 0 and tests \<open>!duration\<close> before it looks for the marker, so that the duration
  is fetched once, at the start. A first marker that reads zero is fetched and printed,
  but the variable is 0 as before: the next marker is not ignored, the duration is
  fetched and printed a second time, and progress is reported against that later marker.
  When the first marker is not zero, the later one is ignored.
\<close>

theorem duration_fetched_twice:
  "regex_match ''Duration: '' ''Duration: 00:00:00.00, start'' = Some (''00'', ''00'', ''00.00'') \<and>
   hms_seconds (''00'', ''00'', ''00.00'') = 0 \<and>
   filter is_LogDuration (actions (run (main (listing [''a.mp4'', ''a.srt'']) [''in'', ''out''])
     [Child 0 (StderrData ''Duration: 00:00:00.00, start''),
      Child 0 (StderrData ''Duration: 00:01:40.00, start'')])) =
     [LogDuration 0, LogDuration 100] \<and>
   duration (tasks (run (main (listing [''a.mp4'', ''a.srt'']) [''in'', ''out''])
     [Child 0 (StderrData ''Duration: 00:00:00.00, start''),
      Child 0 (StderrData ''Duration: 00:01:40.00, start'')]) ! 0) = 100 \<and>
   inProgress (run (main (listing [''a.mp4'', ''a.srt'']) [''in'', ''out''])
     [Child 0 (StderrData ''Duration: 00:00:00.00, start''),
      Child 0 (StderrData ''Duration: 00:01:40.00, start''),
      Child 0 (StderrData ''time=00:00:50.00'')]) = [(''a.mp4'', 50)] \<and>
   filter is_LogDuration (actions (run (main (listing [''a.mp4'', ''a.srt'']) [''in'', ''out''])
     [Child 0 (StderrData ''Duration: 00:01:40.00, start''),
      Child 0 (StderrData ''Duration: 00:05:00.00, start'')])) =
     [LogDuration 100] \<and>
   duration (tasks (run (main (listing [''a.mp4'', ''a.srt'']) [''in'', ''out''])
     [Child 0 (StderrData ''Duration: 00:01:40.00, start''),
      Child 0 (StderrData ''Duration: 00:05:00.00, start'')]) ! 0) = 100"
  by code_simp

section \<open>The batches\<close>

lemma spawned_emit [simp]:
  "spawned (emit a s) = spawned s @ (if is_Spawn a then [a] else [])"
  by (simp add: spawned_def)

lemma spawned_printProgress [simp]: "spawned (printProgress s) = spawned s"
  by (simp add: printProgress_def)

lemma evolves_refl: "evolves i s s"
  unfolding evolves_def by (intro conjI exI [of _ "tasks s ! i"]) simp_all

lemma evolves_trans:
  assumes "evolves i s s1" "evolves i s1 s2" "i < length (tasks s)"
  shows "evolves i s s2"
proof -
  from assms(1) obtain t1 where t1: "tasks s1 = (tasks s)[i := t1]"
    "filename t1 = filename (tasks s ! i)" "is_settled t1 \<or> \<not> is_settled (tasks s ! i)"
    and f1: "matches s1 = matches s" "currentIndex s1 = currentIndex s" "phase s1 = phase s"
      "exit_status s1 = exit_status s" "outputDir s1 = outputDir s" "spawned s1 = spawned s"
    unfolding evolves_def by blast
  from assms(2) obtain t2 where t2: "tasks s2 = (tasks s1)[i := t2]"
    "filename t2 = filename (tasks s1 ! i)" "is_settled t2 \<or> \<not> is_settled (tasks s1 ! i)"
    and f2: "matches s2 = matches s1" "currentIndex s2 = currentIndex s1" "phase s2 = phase s1"
      "exit_status s2 = exit_status s1" "outputDir s2 = outputDir s1" "spawned s2 = spawned s1"
    unfolding evolves_def by blast
  have n: "tasks s1 ! i = t1" using t1(1) assms(3) by simp
  have "tasks s2 = (tasks s)[i := t2]" using t1(1) t2(1) by simp
  moreover have "filename t2 = filename (tasks s ! i)" using t2(2) n t1(2) by simp
  moreover have "is_settled t2 \<or> \<not> is_settled (tasks s ! i)" using t2(3) n t1(3) by auto
  ultimately show ?thesis unfolding evolves_def using f1 f2 by auto
qed

lemma evolves_length: "evolves i s s' \<Longrightarrow> length (tasks s') = length (tasks s)"
  unfolding evolves_def by auto

lemma evolves_emit: "\<not> is_Spawn a \<Longrightarrow> evolves i s (emit a s)"
  unfolding evolves_def by (intro conjI exI [of _ "tasks s ! i"]) simp_all

lemma evolves_printProgress: "evolves i s (printProgress s)"
  unfolding evolves_def by (intro conjI exI [of _ "tasks s ! i"]) simp_all

lemma evolves_finish: "evolves i s (finish fname b s)"
  unfolding evolves_def finish_def
  by (intro conjI exI [of _ "tasks s ! i"]) (simp_all add: spawned_def printProgress_def emit_def)

lemma evolves_settle: "evolves i s (settle i r s)"
proof (cases "settled (tasks s ! i) = None")
  case True
  show ?thesis
    unfolding evolves_def
    by (intro conjI exI [of _ "(tasks s ! i)\<lparr>settled := Some r\<rparr>"])
      (simp_all add: settle_def True is_settled_def spawned_def)
next
  case False
  then have "settle i r s = s" by (auto simp: settle_def)
  then show ?thesis by (simp add: evolves_refl)
qed

lemma is_settled_update [simp]:
  "is_settled (t\<lparr>duration := d\<rparr>) = is_settled t"
  "is_settled (t\<lparr>lastProgress := p\<rparr>) = is_settled t"
  by (simp_all add: is_settled_def)

lemma evolves_capture_duration: "evolves i s (capture_duration s i chunk)"
proof (cases "duration (tasks s ! i) = 0")
  case True
  show ?thesis
  proof (cases "regex_match ''Duration: '' chunk")
    case None
    with True have "capture_duration s i chunk = s" by (simp add: capture_duration_def)
    then show ?thesis by (simp add: evolves_refl)
  next
    case (Some g)
    show ?thesis
      unfolding evolves_def
      by (intro conjI exI [of _ "(tasks s ! i)\<lparr>duration := hms_seconds g\<rparr>"])
        (simp_all add: capture_duration_def True Some Let_def spawned_def emit_def)
  qed
next
  case False
  then have "capture_duration s i chunk = s" by (simp add: capture_duration_def)
  then show ?thesis by (simp add: evolves_refl)
qed

lemma evolves_update_progress: "evolves i s (update_progress s i p)"
proof (cases "passes_throttle p (lastProgress (tasks s ! i))")
  case True
  show ?thesis
    unfolding evolves_def
    by (intro conjI exI [of _ "(tasks s ! i)\<lparr>lastProgress := to_number p\<rparr>"])
      (simp_all add: update_progress_def True spawned_def printProgress_def emit_def)
next
  case False
  then have "update_progress s i p = s" by (simp add: update_progress_def)
  then show ?thesis by (simp add: evolves_refl)
qed

lemma evolves_report_time: "evolves i s (report_time s i chunk)"
  by (cases "regex_match ''time='' chunk")
    (simp_all add: report_time_def evolves_refl evolves_update_progress)

lemma evolves_on_stderr:
  assumes "i < length (tasks s)"
  shows "evolves i s (on_stderr s i chunk)"
  unfolding on_stderr_def
  using evolves_capture_duration evolves_report_time assms by (rule evolves_trans)

lemma evolves_on_close:
  assumes "i < length (tasks s)"
  shows "evolves i s (on_close s i code)"
proof -
  let ?f = "filename (tasks s ! i)"
  have 4: "evolves i s (settle i r (emit a (finish ?f b s)))" if "\<not> is_Spawn a" for a r b
  proof -
    have 1: "evolves i s (finish ?f b s)" by (rule evolves_finish)
    have 2: "evolves i (finish ?f b s) (emit a (finish ?f b s))"
      using that by (rule evolves_emit)
    have 3: "evolves i s (emit a (finish ?f b s))"
      using 1 2 assms by (rule evolves_trans)
    show ?thesis using 3 evolves_settle assms by (rule evolves_trans)
  qed
  show ?thesis by (simp add: on_close_def Let_def 4)
qed

lemma evolves_on_error:
  assumes "i < length (tasks s)"
  shows "evolves i s (on_error s i message)"
proof -
  let ?f = "filename (tasks s ! i)"
  let ?s1 = "emit (LogProcessError ?f message) s"
  have 1: "evolves i s ?s1" by (rule evolves_emit) simp
  have 2: "evolves i s (finish ?f False ?s1)"
    using 1 evolves_finish assms by (rule evolves_trans)
  have "evolves i s (settle i (Rejected (LaunchFailure message)) (finish ?f False ?s1))"
    using 2 evolves_settle assms by (rule evolves_trans)
  then show ?thesis by (simp add: on_error_def Let_def)
qed

lemma evolves_handle_child:
  assumes "i < length (tasks s)"
  shows "evolves i s (handle_child s i ev)"
  using assms by (cases ev) (simp_all add: evolves_on_stderr evolves_on_close evolves_on_error)

lemma settled_update:
  assumes "list_all is_settled (take n xs)" "is_settled t' \<or> \<not> is_settled (xs ! i)"
    and "i < length xs"
  shows "list_all is_settled (take n (xs[i := t']))"
  using assms unfolding list_all_length by (auto simp: nth_list_update)

lemma filename_update:
  assumes "filename t' = filename (xs ! i)" "i < length xs"
  shows "map filename (xs[i := t']) = map filename xs"
proof -
  have "map filename (xs[i := t']) = (map filename xs)[i := filename t']" by (rule map_update)
  also have "\<dots> = (map filename xs)[i := map filename xs ! i]" using assms by simp
  also have "\<dots> = map filename xs" by (rule list_update_id)
  finally show ?thesis .
qed

lemma evolves_well_formed:
  assumes "evolves i s s'" "i < length (tasks s)" "well_formed s"
  shows "well_formed s'"
proof -
  from assms(1) obtain t' where t: "tasks s' = (tasks s)[i := t']"
    "filename t' = filename (tasks s ! i)" "is_settled t' \<or> \<not> is_settled (tasks s ! i)"
    and f: "matches s' = matches s" "currentIndex s' = currentIndex s" "phase s' = phase s"
      "exit_status s' = exit_status s" "spawned s' = spawned s"
    unfolding evolves_def by blast
  have l: "length (tasks s') = length (tasks s)" using t(1) by simp
  have n: "map filename (tasks s') = map filename (tasks s)"
    unfolding t(1) using t(2) assms(2) by (rule filename_update)
  have a: "list_all is_settled (take (currentIndex s) (tasks s'))"
    unfolding t(1) using assms(3) t(3) assms(2)
    by (intro settled_update) (simp_all add: well_formed_def)
  show ?thesis
    using assms(3) unfolding well_formed_def f l n using a by simp
qed

lemma foldl_emit_fields:
  "tasks (foldl (\<lambda>s' x. emit (g x) s') s xs) = tasks s \<and>
   matches (foldl (\<lambda>s' x. emit (g x) s') s xs) = matches s \<and>
   currentIndex (foldl (\<lambda>s' x. emit (g x) s') s xs) = currentIndex s \<and>
   phase (foldl (\<lambda>s' x. emit (g x) s') s xs) = phase s \<and>
   exit_status (foldl (\<lambda>s' x. emit (g x) s') s xs) = exit_status s \<and>
   results (foldl (\<lambda>s' x. emit (g x) s') s xs) = results s \<and>
   ((\<forall>x. \<not> is_Spawn (g x)) \<longrightarrow> spawned (foldl (\<lambda>s' x. emit (g x) s') s xs) = spawned s)"
  by (induction xs arbitrary: s) simp_all

lemma spawned_update [simp]:
  "spawned (s\<lparr>currentIndex := c\<rparr>) = spawned s"
  "spawned (s\<lparr>phase := p\<rparr>) = spawned s"
  "spawned (s\<lparr>tasks := ts\<rparr>) = spawned s"
  "spawned (s\<lparr>inProgress := ip\<rparr>) = spawned s"
  by (simp_all add: spawned_def)

lemma batch_done_fields:
  "tasks (batch_done s) = tasks s"
  "matches (batch_done s) = matches s"
  "currentIndex (batch_done s) = currentIndex s + BATCH_SIZE"
  "exit_status (batch_done s) = exit_status s"
  "spawned (batch_done s) = spawned s"
  "phase (batch_done s) =
     (if currentIndex s + BATCH_SIZE < length (matches s) then AwaitingKey else Finished)"
proof -
  let ?g = "\<lambda>x. LogFailedItem (Suc (fst x)) (filename (snd x)) (failure_of (snd x))"
  have e: "(\<lambda>s' (n, t). emit (LogFailedItem (n + 1) (filename t) (failure_of t)) s') =
      (\<lambda>s' x. emit (?g x) s')"
    by (simp add: case_prod_unfold)
  have n: "\<forall>x. \<not> is_Spawn (?g x)" by simp
  note ff = foldl_emit_fields [of ?g]
  show "tasks (batch_done s) = tasks s"
    "matches (batch_done s) = matches s"
    "currentIndex (batch_done s) = currentIndex s + BATCH_SIZE"
    "exit_status (batch_done s) = exit_status s"
    "spawned (batch_done s) = spawned s"
    "phase (batch_done s) =
       (if currentIndex s + BATCH_SIZE < length (matches s) then AwaitingKey else Finished)"
    unfolding batch_done_def Let_def e using n
    by (simp_all add: ff)
qed

lemma all_settled:
  assumes "list_all is_settled (take n xs)" "list_all is_settled (drop n xs)"
  shows "list_all is_settled xs"
proof -
  have "list_all is_settled (take n xs @ drop n xs)"
    using assms by (simp only: list_all_append)
  then show ?thesis by simp
qed

lemma continue_batch_orchestrated:
  assumes "well_formed s"
  shows "orchestrated (continue_batch s)"
proof (cases "phase s = Running \<and> batch_settled s")
  case False
  then have "continue_batch s = s" by (auto simp: continue_batch_def)
  with assms False show ?thesis by (auto simp: orchestrated_def)
next
  case True
  then have c: "continue_batch s = batch_done s" by (simp add: continue_batch_def)
  from assms True have w: "BATCH_SIZE dvd currentIndex s"
    "map filename (tasks s) = map (\<lambda>m. basename (video m)) (take (length (tasks s)) (matches s))"
    "length (tasks s) \<le> length (matches s)"
    "list_all is_settled (take (currentIndex s) (tasks s))"
    "length (spawned s) = length (tasks s)"
    "currentIndex s < length (matches s)"
    "length (tasks s) = min (currentIndex s + BATCH_SIZE) (length (matches s))"
    "exit_status s = None"
    by (simp_all add: well_formed_def)
  from True have "list_all is_settled (drop (currentIndex s) (tasks s))"
    by (simp add: batch_settled_def)
  with w(4) have a: "list_all is_settled (tasks s)" by (rule all_settled)
  then have a': "list_all is_settled (take n (tasks s))" for n
    unfolding list_all_iff by (auto dest: in_set_takeD)
  have "well_formed (batch_done s)"
    unfolding well_formed_def batch_done_fields
    using w a a' by (auto simp: min_def)
  moreover have "phase (batch_done s) \<noteq> Running" by (simp add: batch_done_fields)
  ultimately show ?thesis by (simp add: c orchestrated_def)
qed

lemma start_video_fields:
  "tasks (start_video s m) = tasks s @ [fresh_task m]"
  "matches (start_video s m) = matches s"
  "currentIndex (start_video s m) = currentIndex s"
  "exit_status (start_video s m) = exit_status s"
  "outputDir (start_video s m) = outputDir s"
  "length (spawned (start_video s m)) = Suc (length (spawned s))"
  by (simp_all add: start_video_def processVideo_def Let_def fresh_task_def)

lemma start_videos_fields:
  "tasks (foldl start_video s ms) = tasks s @ map fresh_task ms \<and>
   matches (foldl start_video s ms) = matches s \<and>
   currentIndex (foldl start_video s ms) = currentIndex s \<and>
   exit_status (foldl start_video s ms) = exit_status s \<and>
   length (spawned (foldl start_video s ms)) = length (spawned s) + length ms"
  by (induction ms arbitrary: s) (simp_all add: start_video_fields)

lemma start_batch_fields:
  "tasks (start_batch s) =
     tasks s @ map fresh_task (take BATCH_SIZE (drop (currentIndex s) (matches s)))"
  "matches (start_batch s) = matches s"
  "currentIndex (start_batch s) = currentIndex s"
  "exit_status (start_batch s) = exit_status s"
  "phase (start_batch s) = Running"
  "length (spawned (start_batch s)) =
     length (spawned s) + length (take BATCH_SIZE (drop (currentIndex s) (matches s)))"
  by (simp_all add: start_batch_def Let_def start_videos_fields)

lemma fresh_task_fields [simp]:
  "filename (fresh_task m) = basename (video m)" "\<not> is_settled (fresh_task m)"
  by (simp_all add: fresh_task_def is_settled_def)

lemma take_batch:
  "take (min (c + b) (length ms)) ms = take c ms @ take b (drop c ms)"
proof -
  have "take (min (c + b) (length ms)) ms = take (c + b) ms"
    by (simp add: min_def)
  then show ?thesis by (simp add: take_add)
qed

lemma start_batch_orchestrated:
  assumes "BATCH_SIZE dvd currentIndex s"
    and "map filename (tasks s) =
           map (\<lambda>m. basename (video m)) (take (length (tasks s)) (matches s))"
    and "length (tasks s) = currentIndex s"
    and "list_all is_settled (tasks s)"
    and "length (spawned s) = length (tasks s)"
    and "currentIndex s < length (matches s)"
    and "exit_status s = None"
  shows "orchestrated (start_batch s)"
proof -
  let ?c = "currentIndex s" and ?ms = "matches s"
  let ?new = "take BATCH_SIZE (drop ?c ?ms)"
  let ?ts = "tasks s @ map fresh_task ?new"
  have len: "length ?ts = min (?c + BATCH_SIZE) (length ?ms)"
    using assms(3,6) by (auto simp: min_def)
  have "map filename ?ts = map (\<lambda>m. basename (video m)) (take ?c ?ms @ ?new)"
    using assms(2,3) by (simp add: comp_def)
  also have "\<dots> = map (\<lambda>m. basename (video m)) (take (length ?ts) ?ms)"
    unfolding len by (simp only: take_batch)
  finally have names: "map filename ?ts = map (\<lambda>m. basename (video m)) (take (length ?ts) ?ms)" .
  have pre: "list_all is_settled (take ?c ?ts)" using assms(3,4) by simp
  have ne: "?new \<noteq> []" using assms(6) by (simp add: BATCH_SIZE_def)
  have "drop ?c ?ts = map fresh_task ?new" using assms(3) by simp
  moreover have "\<not> list_all is_settled (map fresh_task ?new)"
    using ne by (cases ?new) simp_all
  ultimately have nb: "\<not> list_all is_settled (drop ?c ?ts)" by simp
  have le: "length ?ts \<le> length ?ms" unfolding len by simp
  have sp: "length (spawned (start_batch s)) = length ?ts"
    using assms(5) by (simp add: start_batch_fields)
  have "well_formed (start_batch s)"
    unfolding well_formed_def start_batch_fields(1-5)
    using assms(1,6,7) names pre le sp len by simp
  moreover have "\<not> batch_settled (start_batch s)"
    unfolding batch_settled_def start_batch_fields(1,3) using nb .
  ultimately show ?thesis by (simp add: orchestrated_def)
qed

lemma orchestrated_idle:
  assumes "tasks s = []" "matches s = []" "phase s = Finished" "actions s = as"
    and "list_all (\<lambda>a. \<not> is_Spawn a) as" "currentIndex s = 0"
  shows "orchestrated s"
proof -
  have "filter is_Spawn as = []" using assms(5) by (induction as) simp_all
  then show ?thesis
    using assms by (simp add: orchestrated_def well_formed_def spawned_def)
qed

lemma main_orchestrated: "orchestrated (main fs args)"
proof -
  have idle: "orchestrated (exit_with n (emit a initial_state))" if "\<not> is_Spawn a" for a n
    using that
    by (intro orchestrated_idle [where as = "[a, Exit n]"])
      (simp_all add: exit_with_def emit_def initial_state_def)
  have idle2: "orchestrated (emit a (emit (Mkdir d) initial_state))" if "\<not> is_Spawn a" for a d
    using that
    by (intro orchestrated_idle [where as = "[Mkdir d, a]"])
      (simp_all add: emit_def initial_state_def)
  have started: "orchestrated (start_batch
      (emit (LogEncoder getEncoder)
        (emit (LogFound (length ms))
          ((emit (Mkdir d) initial_state)\<lparr>total := length ms, completed := 0, inProgress := [],
             results := [], matches := ms, outputDir := d\<rparr>))))"
    if "ms \<noteq> []" for ms d
    using that
    by (intro start_batch_orchestrated)
      (simp_all add: emit_def initial_state_def spawned_def)
  have bp: "orchestrated (batchProcess fs i d)" for i d
    unfolding batchProcess_def Let_def
    by (auto simp: idle2 started split: option.splits sum.splits)
  show ?thesis
    unfolding main_def by (auto simp: idle bp split: sum.splits)
qed

lemma deliver_Child:
  assumes "exit_status s = None" "i < length (tasks s)"
  shows "deliver s (Child i ev) = continue_batch (handle_child s i ev)"
  using assms by (simp add: deliver_def)

lemma deliver_orchestrated:
  assumes "orchestrated s"
  shows "orchestrated (deliver s e)"
proof (cases "exit_status s = None")
  case False
  then have "deliver s e = s" by (simp add: deliver_def)
  with assms show ?thesis by simp
next
  case True
  from assms have w: "well_formed s" by (simp add: orchestrated_def)
  show ?thesis
  proof (cases e)
    case (Child i ev)
    show ?thesis
    proof (cases "i < length (tasks s)")
      case l: True
      have "evolves i s (handle_child s i ev)" using l by (rule evolves_handle_child)
      then have "well_formed (handle_child s i ev)" using l w by (rule evolves_well_formed)
      then have "orchestrated (continue_batch (handle_child s i ev))"
        by (rule continue_batch_orchestrated)
      then show ?thesis using True l Child by (simp add: deliver_Child)
    next
      case False
      then have "deliver s e = s" using Child by (simp add: deliver_def)
      with assms show ?thesis by simp
    qed
  next
    case StdinData
    show ?thesis
    proof (cases "phase s = AwaitingKey")
      case a: True
      with w have h: "BATCH_SIZE dvd currentIndex s"
        "map filename (tasks s) =
           map (\<lambda>m. basename (video m)) (take (length (tasks s)) (matches s))"
        "length (tasks s) = currentIndex s"
        "list_all is_settled (take (currentIndex s) (tasks s))"
        "length (spawned s) = length (tasks s)"
        "currentIndex s < length (matches s)"
        unfolding well_formed_def by auto
      from h(3,4) have all: "list_all is_settled (tasks s)" by simp
      have "orchestrated (start_batch s)"
        using h(1,2,3) all h(5,6) True by (rule start_batch_orchestrated)
      then show ?thesis using True a StdinData by (simp add: deliver_def)
    next
      case False
      then have "deliver s e = s" using StdinData by (simp add: deliver_def)
      with assms show ?thesis by simp
    qed
  qed
qed

lemma run_orchestrated: "orchestrated s \<Longrightarrow> orchestrated (run s es)"
  unfolding run_def by (induction es arbitrary: s) (simp_all add: deliver_orchestrated)

lemma continue_batch_fields:
  "tasks (continue_batch s) = tasks s"
  "matches (continue_batch s) = matches s"
  "spawned (continue_batch s) = spawned s"
  "exit_status (continue_batch s) = exit_status s"
  by (simp_all add: continue_batch_def batch_done_fields)

lemma deliver_child_step:
  assumes "orchestrated s"
  shows "\<exists>s'. evolves i s s' \<and> well_formed s' \<and> deliver s (Child i ev) = continue_batch s'"
proof (cases "exit_status s = None \<and> i < length (tasks s)")
  case True
  then have l: "i < length (tasks s)" by simp
  from assms have w: "well_formed s" by (simp add: orchestrated_def)
  have e: "evolves i s (handle_child s i ev)" using l by (rule evolves_handle_child)
  then have "well_formed (handle_child s i ev)" using l w by (rule evolves_well_formed)
  with e True show ?thesis by (auto simp: deliver_Child)
next
  case False
  then have "deliver s (Child i ev) = s" by (auto simp: deliver_def)
  moreover have "continue_batch s = s"
    using assms by (auto simp: continue_batch_def orchestrated_def)
  ultimately show ?thesis
    using assms evolves_refl [of i s] by (auto simp: orchestrated_def)
qed

lemma filter_all: "list_all P xs \<Longrightarrow> length (filter P xs) = length xs"
  by (induction xs) simp_all

lemma settled_same:
  assumes "is_settled t' = is_settled (xs ! i)"
  shows "map is_settled (xs[i := t']) = map is_settled xs"
proof -
  have "map is_settled (xs[i := t']) = (map is_settled xs)[i := is_settled t']"
    by (rule map_update)
  also have "\<dots> = map is_settled xs"
  proof (cases "i < length xs")
    case True
    then have "is_settled t' = map is_settled xs ! i" using assms by simp
    then show ?thesis by (simp only: list_update_id)
  next
    case False
    then have "length (map is_settled xs) \<le> i" by simp
    then show ?thesis by (rule list_update_beyond)
  qed
  finally show ?thesis .
qed

lemma settled_capture_duration:
  "map is_settled (tasks (capture_duration s i chunk)) = map is_settled (tasks s)"
  by (cases "regex_match ''Duration: '' chunk")
    (simp_all add: capture_duration_def Let_def settled_same)

lemma settled_update_progress:
  "map is_settled (tasks (update_progress s i p)) = map is_settled (tasks s)"
  by (simp add: update_progress_def settled_same)

lemma settled_on_stderr:
  "map is_settled (tasks (on_stderr s i chunk)) = map is_settled (tasks s)"
  by (cases "regex_match ''time='' chunk")
    (simp_all add: on_stderr_def report_time_def settled_update_progress
      settled_capture_duration)

lemma settled_settle:
  assumes "i < length (tasks s)"
  shows "map is_settled (tasks (settle i r s)) = (map is_settled (tasks s))[i := True]"
proof (cases "settled (tasks s ! i) = None")
  case True
  then show ?thesis by (simp add: settle_def map_update is_settled_def)
next
  case False
  let ?bs = "map is_settled (tasks s)"
  have "?bs[i := ?bs ! i] = ?bs" by (rule list_update_id)
  moreover from False have "?bs ! i = True" using assms by (simp add: is_settled_def)
  ultimately have "?bs[i := True] = ?bs" by (simp only:)
  moreover from False have "settle i r s = s" by (auto simp: settle_def)
  ultimately show ?thesis by simp
qed

lemma finish_tasks [simp]: "tasks (finish fname b s) = tasks s"
  by (simp add: finish_def)

lemma settled_handle_child:
  assumes "i < length (tasks s)"
  shows "map is_settled (tasks (handle_child s i ev)) =
    (if settles ev then (map is_settled (tasks s))[i := True] else map is_settled (tasks s))"
proof (cases ev)
  case (StderrData chunk)
  then show ?thesis by (simp add: settled_on_stderr)
next
  case (Close code)
  then show ?thesis using assms by (simp add: on_close_def Let_def settled_settle)
next
  case (ProcessError message)
  then show ?thesis using assms by (simp add: on_error_def Let_def settled_settle)
qed

lemma batch_settled_outline:
  "batch_settled s = list_all (\<lambda>b. b) (drop (currentIndex s) (map is_settled (tasks s)))"
  by (simp add: batch_settled_def list_all_iff drop_map)

lemma outline_continue_batch:
  "outline (continue_batch s) =
     (if phase s = Running \<and> list_all (\<lambda>b. b) (drop (currentIndex s) (map is_settled (tasks s)))
      then (if currentIndex s + BATCH_SIZE < length (matches s) then AwaitingKey else Finished,
            currentIndex s + BATCH_SIZE, length (matches s), map is_settled (tasks s),
            exit_status s = None)
      else outline s)"
  unfolding batch_settled_outline [symmetric]
  by (simp add: outline_def continue_batch_def batch_done_fields)

lemma outline_deliver: "outline (deliver s e) = outline_step (outline s) e"
proof (cases e)
  case (Child i ev)
  show ?thesis
  proof (cases "exit_status s = None \<and> i < length (tasks s)")
    case True
    then have l: "i < length (tasks s)" by simp
    let ?s' = "handle_child s i ev"
    have "evolves i s ?s'" using l by (rule evolves_handle_child)
    then have f: "phase ?s' = phase s" "currentIndex ?s' = currentIndex s"
      "matches ?s' = matches s" "exit_status ?s' = exit_status s"
      unfolding evolves_def by auto
    have d: "deliver s e = continue_batch ?s'"
      using True Child by (simp add: deliver_Child)
    show ?thesis
      unfolding d outline_continue_batch
      using True Child by (simp add: outline_def Let_def f settled_handle_child [OF l])
  next
    case False
    then have "deliver s e = s" using Child by (auto simp: deliver_def)
    with False Child show ?thesis by (auto simp: outline_def)
  qed
next
  case StdinData
  show ?thesis
  proof (cases "exit_status s = None \<and> phase s = AwaitingKey")
    case True
    then have d: "deliver s e = start_batch s" using StdinData by (simp add: deliver_def)
    have "map is_settled (map fresh_task ms) = replicate (length ms) False" for ms
      by (induction ms) simp_all
    then show ?thesis
      unfolding d using True StdinData
      by (simp add: outline_def start_batch_fields min_def)
  next
    case False
    then have "deliver s e = s" using StdinData by (auto simp: deliver_def)
    with False StdinData show ?thesis by (auto simp: outline_def)
  qed
qed

lemma outline_run: "outline (run s es) = foldl outline_step (outline s) es"
  unfolding run_def by (induction es arbitrary: s) (simp_all add: outline_deliver)

lemma outline_main:
  "outline (main (listing files) [inputDir, outDir]) =
     (if findMatchingFiles inputDir files = [] then (Finished, 0, 0, [], True)
      else (Running, 0, length (findMatchingFiles inputDir files),
            replicate (min BATCH_SIZE (length (findMatchingFiles inputDir files))) False, True))"
proof -
  have r: "map (is_settled \<circ> fresh_task) ms = replicate (length ms) False" for ms
    by (induction ms) simp_all
  show ?thesis
    by (simp add: main_def listing_def batchProcess_def Let_def outline_def
        start_batch_fields initial_state_def emit_def r min_def)
qed

lemma map_set_keys:
  "map fst (map_set k v m) = (if k \<in> set (map fst m) then map fst m else map fst m @ [k])"
  by (simp add: map_set_def update_keys)

lemma map_set_record:
  assumes "distinct (map fst m)"
  shows "distinct (map fst (map_set k v m))"
    and "set (map fst (map_set k v m)) = insert k (set (map fst m))"
    and "length (map_set k v m) \<le> Suc (length m)"
proof -
  show "distinct (map fst (map_set k v m))" using assms by (simp add: map_set_keys)
  show "set (map fst (map_set k v m)) = insert k (set (map fst m))"
    by (auto simp: map_set_keys)
  have "length (map fst (map_set k v m)) \<le> Suc (length (map fst m))"
    unfolding map_set_keys by simp
  then show "length (map_set k v m) \<le> Suc (length m)" by simp
qed

lemma settled_labels:
  "filename ` set (filter is_settled ts) =
     {map filename ts ! j | j. j < length ts \<and> map is_settled ts ! j}"
proof (intro set_eqI iffI)
  fix x
  assume "x \<in> filename ` set (filter is_settled ts)"
  then obtain t where t: "t \<in> set ts" "is_settled t" "x = filename t" by auto
  from t(1) obtain j where "j < length ts" "ts ! j = t" by (auto simp: in_set_conv_nth)
  with t show "x \<in> {map filename ts ! j | j. j < length ts \<and> map is_settled ts ! j}"
    by (auto intro!: exI [of _ j])
next
  fix x
  assume "x \<in> {map filename ts ! j | j. j < length ts \<and> map is_settled ts ! j}"
  then obtain j where j: "j < length ts" "is_settled (ts ! j)" "x = filename (ts ! j)"
    by auto
  then have "ts ! j \<in> set (filter is_settled ts)" by simp
  with j(3) show "x \<in> filename ` set (filter is_settled ts)" by blast
qed

lemma settled_labels_same:
  assumes "map filename ts' = map filename ts" "map is_settled ts' = map is_settled ts"
  shows "filename ` set (filter is_settled ts') = filename ` set (filter is_settled ts)"
proof -
  from assms(1) have "length ts' = length ts" by (rule map_eq_imp_length_eq)
  then show ?thesis unfolding settled_labels assms by simp
qed

lemma settled_labels_update:
  assumes "map filename ts' = map filename ts"
    and "map is_settled ts' = (map is_settled ts)[i := True]" and "i < length ts"
  shows "filename ` set (filter is_settled ts') =
    insert (filename (ts ! i)) (filename ` set (filter is_settled ts))"
proof -
  from assms(1) have l: "length ts' = length ts" by (rule map_eq_imp_length_eq)
  have "{map filename ts ! j | j. j < length ts \<and> (map is_settled ts)[i := True] ! j} =
      insert (filename (ts ! i)) {map filename ts ! j | j. j < length ts \<and> map is_settled ts ! j}"
    using assms(3) by (auto simp: nth_list_update)
  then show ?thesis unfolding settled_labels assms l .
qed

lemma settle_counts [simp]:
  "results (settle i r s) = results s" "completed (settle i r s) = completed s"
  "total (settle i r s) = total s"
  by (simp_all add: settle_def)

lemma finish_counts:
  "results (finish fname b s) = map_set fname b (results s)"
  "completed (finish fname b s) = completed s + 1"
  "total (finish fname b s) = total s"
  by (simp_all add: finish_def)

lemma handle_child_counts:
  "\<exists>b. results (handle_child s i ev) =
     (if settles ev then map_set (filename (tasks s ! i)) b (results s) else results s)"
  "completed (handle_child s i ev) = (if settles ev then completed s + 1 else completed s)"
  "total (handle_child s i ev) = total s"
proof -
  show "\<exists>b. results (handle_child s i ev) =
     (if settles ev then map_set (filename (tasks s ! i)) b (results s) else results s)"
  proof (cases ev)
    case (StderrData chunk)
    then show ?thesis by (simp add: on_stderr_def)
  next
    case (Close code)
    then have "results (handle_child s i ev) =
        map_set (filename (tasks s ! i)) (code = Some 0) (results s)"
      by (simp add: on_close_def Let_def finish_counts)
    with Close show ?thesis by auto
  next
    case (ProcessError message)
    then have "results (handle_child s i ev) =
        map_set (filename (tasks s ! i)) False (results s)"
      by (simp add: on_error_def Let_def finish_counts)
    with ProcessError show ?thesis by auto
  qed
  show "completed (handle_child s i ev) = (if settles ev then completed s + 1 else completed s)"
    by (cases ev) (simp_all add: on_stderr_def on_close_def on_error_def Let_def finish_counts)
  show "total (handle_child s i ev) = total s"
    by (cases ev) (simp_all add: on_stderr_def on_close_def on_error_def Let_def finish_counts)
qed

lemma recorded_handle_child:
  assumes "i < length (tasks s)" "recorded s"
  shows "recorded (handle_child s i ev)"
proof -
  let ?s' = "handle_child s i ev"
  let ?f = "filename (tasks s ! i)"
  from assms(2) have r: "distinct (map fst (results s))"
    "set (map fst (results s)) = filename ` set (filter is_settled (tasks s))"
    "length (results s) \<le> completed s" "total s = length (matches s)"
    by (simp_all add: recorded_def)
  have "evolves i s ?s'" using assms(1) by (rule evolves_handle_child)
  then obtain t' where t: "tasks ?s' = (tasks s)[i := t']" "filename t' = ?f"
    and m: "matches ?s' = matches s"
    unfolding evolves_def by blast
  have names: "map filename (tasks ?s') = map filename (tasks s)"
    unfolding t(1) using t(2) assms(1) by (rule filename_update)
  note flags = settled_handle_child [OF assms(1), of ev]
  from handle_child_counts(1) [of s i ev] obtain b where
    b: "results ?s' = (if settles ev then map_set ?f b (results s) else results s)" ..
  note c = handle_child_counts(2,3) [of s i ev]
  show ?thesis
  proof (cases "settles ev")
    case True
    with flags have "map is_settled (tasks ?s') = (map is_settled (tasks s))[i := True]"
      by simp
    with names have "filename ` set (filter is_settled (tasks ?s')) =
        insert ?f (filename ` set (filter is_settled (tasks s)))"
      using assms(1) by (rule settled_labels_update)
    moreover from True b have "results ?s' = map_set ?f b (results s)" by simp
    moreover note map_set_record [OF r(1), of ?f b]
    ultimately show ?thesis
      unfolding recorded_def using r True c m by simp
  next
    case False
    with flags have "map is_settled (tasks ?s') = map is_settled (tasks s)" by simp
    with names have "filename ` set (filter is_settled (tasks ?s')) =
        filename ` set (filter is_settled (tasks s))"
      by (rule settled_labels_same)
    moreover from False b have "results ?s' = results s" by simp
    ultimately show ?thesis
      unfolding recorded_def using r False c m by simp
  qed
qed

lemma foldl_emit_counts:
  "completed (foldl (\<lambda>s' x. emit (g x) s') s xs) = completed s \<and>
   total (foldl (\<lambda>s' x. emit (g x) s') s xs) = total s"
  by (induction xs arbitrary: s) simp_all

lemma batch_done_counts:
  "results (batch_done s) = results s"
  "completed (batch_done s) = completed s"
  "total (batch_done s) = total s"
proof -
  let ?g = "\<lambda>x. LogFailedItem (Suc (fst x)) (filename (snd x)) (failure_of (snd x))"
  have e: "(\<lambda>s' (n, t). emit (LogFailedItem (n + 1) (filename t) (failure_of t)) s') =
      (\<lambda>s' x. emit (?g x) s')"
    by (simp add: case_prod_unfold)
  note ff = foldl_emit_fields [of ?g] foldl_emit_counts [of ?g]
  show "results (batch_done s) = results s"
    "completed (batch_done s) = completed s"
    "total (batch_done s) = total s"
    unfolding batch_done_def Let_def e by (simp_all add: ff)
qed

lemma recorded_continue_batch: "recorded s \<Longrightarrow> recorded (continue_batch s)"
  by (simp add: continue_batch_def recorded_def batch_done_counts batch_done_fields)

lemma start_video_counts:
  "results (start_video s m) = results s"
  "completed (start_video s m) = completed s"
  "total (start_video s m) = total s"
  by (simp_all add: start_video_def processVideo_def Let_def)

lemma start_videos_counts:
  "results (foldl start_video s ms) = results s \<and>
   completed (foldl start_video s ms) = completed s \<and>
   total (foldl start_video s ms) = total s"
  by (induction ms arbitrary: s) (simp_all add: start_video_counts)

lemma start_batch_counts:
  "results (start_batch s) = results s"
  "completed (start_batch s) = completed s"
  "total (start_batch s) = total s"
  by (simp_all add: start_batch_def Let_def start_videos_counts)

lemma filter_fresh_tasks: "filter is_settled (map fresh_task ms) = []"
  by (induction ms) simp_all

lemma recorded_start_batch: "recorded s \<Longrightarrow> recorded (start_batch s)"
  by (simp add: recorded_def start_batch_counts start_batch_fields filter_fresh_tasks)

lemma recorded_main: "recorded (main fs args)"
proof -
  have idle: "recorded (exit_with n (emit a initial_state))" for a n
    by (simp add: recorded_def exit_with_def emit_def initial_state_def)
  have idle2: "recorded (emit a (emit (Mkdir d) initial_state))" for a d
    by (simp add: recorded_def emit_def initial_state_def)
  have started: "recorded (start_batch
      (emit (LogEncoder getEncoder)
        (emit (LogFound (length ms))
          ((emit (Mkdir d) initial_state)\<lparr>total := length ms, completed := 0, inProgress := [],
             results := [], matches := ms, outputDir := d\<rparr>))))" for ms d
    by (rule recorded_start_batch) (simp add: recorded_def emit_def initial_state_def)
  have bp: "recorded (batchProcess fs i d)" for i d
    unfolding batchProcess_def Let_def
    by (auto simp: idle2 started split: option.splits sum.splits)
  show ?thesis
    unfolding main_def by (auto simp: idle bp split: sum.splits)
qed

lemma recorded_deliver:
  assumes "recorded s"
  shows "recorded (deliver s e)"
proof (cases e)
  case (Child i ev)
  show ?thesis
  proof (cases "exit_status s = None \<and> i < length (tasks s)")
    case True
    then have "recorded (handle_child s i ev)" using assms by (simp add: recorded_handle_child)
    then have "recorded (continue_batch (handle_child s i ev))" by (rule recorded_continue_batch)
    with True Child show ?thesis by (simp add: deliver_Child)
  next
    case False
    then have "deliver s e = s" using Child by (auto simp: deliver_def)
    with assms show ?thesis by simp
  qed
next
  case StdinData
  then show ?thesis using assms by (simp add: deliver_def recorded_start_batch)
qed

lemma recorded_run: "recorded s \<Longrightarrow> recorded (run s es)"
  unfolding run_def by (induction es arbitrary: s) (simp_all add: recorded_deliver)

lemma matches_deliver: "matches (deliver s e) = matches s"
proof (cases e)
  case (Child i ev)
  show ?thesis
  proof (cases "exit_status s = None \<and> i < length (tasks s)")
    case True
    then have "evolves i s (handle_child s i ev)" by (simp add: evolves_handle_child)
    then have "matches (handle_child s i ev) = matches s" by (simp add: evolves_def)
    with True Child show ?thesis by (simp add: deliver_Child continue_batch_fields)
  next
    case False
    then have "deliver s e = s" using Child by (auto simp: deliver_def)
    then show ?thesis by simp
  qed
next
  case StdinData
  then show ?thesis by (simp add: deliver_def start_batch_fields)
qed

lemma matches_run: "matches (run s es) = matches s"
  unfolding run_def by (induction es arbitrary: s) (simp_all add: matches_deliver)

lemma main_labels_distinct:
  assumes "\<And>d files. readdir fs d = Inr files \<Longrightarrow> list_all valid_entry files"
  shows "distinct (map (\<lambda>m. basename (video m)) (matches (main fs args)))"
proof -
  have idle: "matches (exit_with n (emit a initial_state)) = []" for a n
    by (simp add: exit_with_def emit_def initial_state_def)
  have bp: "distinct (map (\<lambda>m. basename (video m)) (matches (batchProcess fs i d)))" for i d
  proof (cases "readdir fs i")
    case (Inl e)
    then show ?thesis
      by (simp add: batchProcess_def Let_def emit_def initial_state_def split: option.splits)
  next
    case (Inr files)
    then have "list_all valid_entry files" by (rule assms)
    then have "distinct (map (\<lambda>m. basename (video m)) (findMatchingFiles i files))"
      by (rule result_labels_distinct)
    with Inr show ?thesis
      by (simp add: batchProcess_def Let_def emit_def initial_state_def start_batch_fields
          split: option.splits)
  qed
  show ?thesis
    unfolding main_def by (auto simp: idle bp split: sum.splits)
qed

lemma results_count:
  assumes "distinct (map fst (results s))"
    and "set (map fst (results s)) = filename ` set (filter is_settled (tasks s))"
    and "distinct (map filename (tasks s))"
  shows "length (results s) = length (filter is_settled (tasks s))"
proof -
  have d: "distinct (map filename (filter is_settled (tasks s)))"
    using assms(3) by (rule distinct_map_filter)
  have "card (set (map fst (results s))) = length (map fst (results s))"
    using assms(1) by (rule distinct_card)
  then have "length (results s) = card (set (map fst (results s)))" by (simp only: length_map)
  also have "\<dots> = card (set (map filename (filter is_settled (tasks s))))"
    unfolding assms(2) by simp
  also have "\<dots> = length (map filename (filter is_settled (tasks s)))"
    using d by (rule distinct_card)
  finally show ?thesis by (simp only: length_map)
qed

text \<open>
  Claim C7. In every state \<open>s\<close> that a run reaches, whatever the events: \<open>currentIndex\<close> is
  a multiple of the batch size; there is one \<open>spawn\<close> per task, and the tasks are those of
  the first pairs, in order. When no batch is running (a batch has just been processed,
  or the run is over), the settled tasks are all the tasks and their number is
  \<open>min currentIndex N\<close>, that is \<open>min (k * B) N\<close> after batch \<open>k\<close>. While a batch runs, the
  tasks are those up to the end of the batch and those of earlier batches are settled.
  A step starts conversions only when it is a key press that the program waits for, with
  every task so far settled, and it starts those of the next batch. The step that ends a
  batch adds the batch size to \<open>currentIndex\<close>, leaves every task settled, and waits for a
  key exactly when pairs are left. While the program waits, an event of a child neither
  ends the wait nor spawns a process; the key press starts the next batch.

  The program's own record agrees: \<open>total\<close> is \<open>N\<close>; the entries of \<open>results\<close> have
  pairwise distinct keys, which are the labels of the settled tasks; and when the
  directory entries are names, so that the labels of the pairs are distinct, \<open>results\<close> has
  one entry per settled task, hence \<open>min currentIndex N\<close> entries when no batch is running.
  The counter \<open>completed\<close> is at least the number of entries; it is larger when a child
  has emitted both \<open>error\<close> and \<open>close\<close>.
\<close>

theorem batch_barrier:
  assumes "s = run (main fs args) es"
  shows "BATCH_SIZE dvd currentIndex s \<and>
    length (spawned s) = length (tasks s) \<and>
    map filename (tasks s) =
      map (\<lambda>m. basename (video m)) (take (length (tasks s)) (matches s)) \<and>
    (phase s \<noteq> Running \<longrightarrow>
       length (filter is_settled (tasks s)) = min (currentIndex s) (length (matches s)) \<and>
       length (tasks s) = min (currentIndex s) (length (matches s))) \<and>
    (phase s = Running \<longrightarrow>
       length (tasks s) = min (currentIndex s + BATCH_SIZE) (length (matches s)) \<and>
       list_all is_settled (take (currentIndex s) (tasks s)) \<and>
       \<not> batch_settled s) \<and>
    (length (tasks (deliver s e)) \<noteq> length (tasks s) \<longrightarrow>
       e = StdinData \<and> phase s = AwaitingKey \<and> list_all is_settled (tasks s) \<and>
       tasks (deliver s e) =
         tasks s @ map fresh_task (take BATCH_SIZE (drop (currentIndex s) (matches s)))) \<and>
    (phase s = Running \<and> phase (deliver s e) \<noteq> Running \<longrightarrow>
       currentIndex (deliver s e) = currentIndex s + BATCH_SIZE \<and>
       list_all is_settled (tasks (deliver s e)) \<and>
       (phase (deliver s e) = AwaitingKey) =
         (currentIndex s + BATCH_SIZE < length (matches s))) \<and>
    (phase s = AwaitingKey \<longrightarrow>
       phase (deliver s StdinData) = Running \<and>
       (e \<noteq> StdinData \<longrightarrow>
          phase (deliver s e) = AwaitingKey \<and> spawned (deliver s e) = spawned s)) \<and>
    total s = length (matches s) \<and>
    length (results s) \<le> completed s \<and>
    distinct (map fst (results s)) \<and>
    set (map fst (results s)) = filename ` set (filter is_settled (tasks s)) \<and>
    ((\<forall>d files. readdir fs d = Inr files \<longrightarrow> list_all valid_entry files) \<longrightarrow>
       length (results s) = length (filter is_settled (tasks s)) \<and>
       (phase s \<noteq> Running \<longrightarrow>
          length (results s) = min (currentIndex s) (length (matches s))))"
proof -
  have o: "orchestrated s"
    unfolding assms using main_orchestrated by (rule run_orchestrated)
  then have w: "well_formed s" by (simp add: orchestrated_def)
  have c1: "BATCH_SIZE dvd currentIndex s" and c2: "length (spawned s) = length (tasks s)"
    and c3: "map filename (tasks s) =
      map (\<lambda>m. basename (video m)) (take (length (tasks s)) (matches s))"
    and pre: "list_all is_settled (take (currentIndex s) (tasks s))"
    using w unfolding well_formed_def by auto
  have c4: "length (filter is_settled (tasks s)) = min (currentIndex s) (length (matches s)) \<and>
       length (tasks s) = min (currentIndex s) (length (matches s))" if "phase s \<noteq> Running"
  proof -
    from that w have l: "length (tasks s) = min (currentIndex s) (length (matches s))"
      and le: "length (tasks s) \<le> currentIndex s"
      unfolding well_formed_def by (cases "phase s"; auto)+
    from pre le have "list_all is_settled (tasks s)" by simp
    then have "length (filter is_settled (tasks s)) = length (tasks s)" by (rule filter_all)
    with l show ?thesis by simp
  qed
  have c5: "length (tasks s) = min (currentIndex s + BATCH_SIZE) (length (matches s)) \<and>
       list_all is_settled (take (currentIndex s) (tasks s)) \<and> \<not> batch_settled s"
    if "phase s = Running"
    using that o pre unfolding orchestrated_def well_formed_def by auto
  have key: "deliver s StdinData = start_batch s" if "phase s = AwaitingKey"
    using that w unfolding well_formed_def by (auto simp: deliver_def)
  have nokey: "deliver s StdinData = s" if "phase s \<noteq> AwaitingKey"
    using that by (simp add: deliver_def)
  have c6: "e = StdinData \<and> phase s = AwaitingKey \<and> list_all is_settled (tasks s) \<and>
       tasks (deliver s e) =
         tasks s @ map fresh_task (take BATCH_SIZE (drop (currentIndex s) (matches s)))"
    if d: "length (tasks (deliver s e)) \<noteq> length (tasks s)"
  proof (cases e)
    case (Child i ev)
    from deliver_child_step [OF o, of i ev] obtain s' where
      s': "evolves i s s'" "deliver s (Child i ev) = continue_batch s'" by blast
    from s'(1) have "length (tasks s') = length (tasks s)" by (rule evolves_length)
    with s'(2) d Child show ?thesis by (simp add: continue_batch_fields)
  next
    case StdinData
    have a: "phase s = AwaitingKey"
    proof (rule ccontr)
      assume "phase s \<noteq> AwaitingKey"
      then have "deliver s StdinData = s" by (rule nokey)
      with d StdinData show False by simp
    qed
    with w have "length (tasks s) = currentIndex s" unfolding well_formed_def by auto
    with pre have "list_all is_settled (tasks s)" by simp
    with a StdinData show ?thesis by (simp add: key start_batch_fields)
  qed
  have c7: "currentIndex (deliver s e) = currentIndex s + BATCH_SIZE \<and>
       list_all is_settled (tasks (deliver s e)) \<and>
       (phase (deliver s e) = AwaitingKey) =
         (currentIndex s + BATCH_SIZE < length (matches s))"
    if r: "phase s = Running \<and> phase (deliver s e) \<noteq> Running"
  proof (cases e)
    case (Child i ev)
    from deliver_child_step [OF o, of i ev] obtain s' where
      s': "evolves i s s'" "well_formed s'" "deliver s (Child i ev) = continue_batch s'" by blast
    from s'(1) have f: "phase s' = phase s" "matches s' = matches s"
      "currentIndex s' = currentIndex s" unfolding evolves_def by auto
    from r s'(3) Child f(1) have b: "batch_settled s'"
      by (auto simp: continue_batch_def split: if_splits)
    with r f(1) have d: "deliver s e = batch_done s'"
      using s'(3) Child by (simp add: continue_batch_def)
    from b have "list_all is_settled (drop (currentIndex s') (tasks s'))"
      by (simp add: batch_settled_def)
    moreover from s'(2) have "list_all is_settled (take (currentIndex s') (tasks s'))"
      unfolding well_formed_def by auto
    ultimately have "list_all is_settled (tasks s')" by (rule all_settled [rotated])
    then show ?thesis unfolding d batch_done_fields f by simp
  next
    case StdinData
    from r have "phase s \<noteq> AwaitingKey" by simp
    then have "deliver s StdinData = s" by (rule nokey)
    with r StdinData show ?thesis by simp
  qed
  have c8: "phase (deliver s StdinData) = Running \<and>
       (e \<noteq> StdinData \<longrightarrow>
          phase (deliver s e) = AwaitingKey \<and> spawned (deliver s e) = spawned s)"
    if a: "phase s = AwaitingKey"
  proof (intro conjI impI)
    show "phase (deliver s StdinData) = Running" using a by (simp add: key start_batch_fields)
  next
    assume n: "e \<noteq> StdinData"
    then obtain i ev where e: "e = Child i ev" by (cases e) auto
    from deliver_child_step [OF o, of i ev] obtain s' where
      s': "evolves i s s'" "deliver s (Child i ev) = continue_batch s'" by blast
    from s'(1) a have f: "phase s' = AwaitingKey" "spawned s' = spawned s"
      unfolding evolves_def by auto
    then have "continue_batch s' = s'" by (simp add: continue_batch_def)
    with s'(2) e f show "phase (deliver s e) = AwaitingKey" "spawned (deliver s e) = spawned s"
      by simp_all
  qed
  have "recorded s" unfolding assms using recorded_main by (rule recorded_run)
  then have c9: "total s = length (matches s)" and c10: "length (results s) \<le> completed s"
    and c11: "distinct (map fst (results s))"
    and c12: "set (map fst (results s)) = filename ` set (filter is_settled (tasks s))"
    by (simp_all add: recorded_def)
  have c13: "length (results s) = length (filter is_settled (tasks s)) \<and>
       (phase s \<noteq> Running \<longrightarrow>
          length (results s) = min (currentIndex s) (length (matches s)))"
    if v: "\<forall>d files. readdir fs d = Inr files \<longrightarrow> list_all valid_entry files"
  proof -
    have "distinct (map (\<lambda>m. basename (video m)) (matches (main fs args)))"
      using v by (intro main_labels_distinct) blast
    then have "distinct (map (\<lambda>m. basename (video m)) (matches s))"
      unfolding assms by (simp only: matches_run)
    then have "distinct (take (length (tasks s)) (map (\<lambda>m. basename (video m)) (matches s)))"
      by (rule distinct_take)
    then have "distinct (map filename (tasks s))" unfolding c3 by (simp only: take_map)
    with c11 c12 have n: "length (results s) = length (filter is_settled (tasks s))"
      by (rule results_count)
    with c4 show ?thesis by simp
  qed
  from c1 c2 c3 c4 c5 c6 c7 c8 c9 c10 c11 c12 c13 show ?thesis by blast
qed

theorem batch_barrier_witness:
  "phase (run (main (listing eleven_pairs) [''in'', ''out'']) nine_closed) = Running \<and>
   phase (run (main (listing eleven_pairs) [''in'', ''out''])
     (nine_closed @ [Child 9 (Close (Some 0))])) = AwaitingKey \<and>
   currentIndex (run (main (listing eleven_pairs) [''in'', ''out''])
     (nine_closed @ [Child 9 (Close (Some 0))])) = 10 \<and>
   length (matches (run (main (listing eleven_pairs) [''in'', ''out''])
     (nine_closed @ [Child 9 (Close (Some 0))]))) = 11 \<and>
   length (filter is_settled (tasks (run (main (listing eleven_pairs) [''in'', ''out''])
     (nine_closed @ [Child 9 (Close (Some 0))])))) = 10 \<and>
   length (spawned (run (main (listing eleven_pairs) [''in'', ''out''])
     (nine_closed @ [Child 9 (Close (Some 0))]))) = 10 \<and>
   phase (deliver (run (main (listing eleven_pairs) [''in'', ''out''])
     (nine_closed @ [Child 9 (Close (Some 0))])) (Child 2 (Close (Some 0)))) = AwaitingKey \<and>
   phase (deliver (run (main (listing eleven_pairs) [''in'', ''out''])
     (nine_closed @ [Child 9 (Close (Some 0))])) StdinData) = Running \<and>
   length (tasks (deliver (run (main (listing eleven_pairs) [''in'', ''out''])
     (nine_closed @ [Child 9 (Close (Some 0))])) StdinData)) = 11 \<and>
   list_all valid_entry eleven_pairs \<and>
   length (results (run (main (listing eleven_pairs) [''in'', ''out''])
     (nine_closed @ [Child 9 (Close (Some 0))]))) = 10 \<and>
   total (run (main (listing eleven_pairs) [''in'', ''out''])
     (nine_closed @ [Child 9 (Close (Some 0))])) = 11"
proof -
  let ?init = "main (listing eleven_pairs) [''in'', ''out'']"
  let ?e = "Child 9 (Close (Some 0))"
  let ?nine = "run ?init nine_closed"
  let ?s = "run ?init (nine_closed @ [?e])"
  let ?first = "(Running, 0, 11, replicate (min BATCH_SIZE 11) False, True)"
  have d: "?s = deliver ?nine ?e" by (simp add: run_def)
  have n: "length (findMatchingFiles ''in'' eleven_pairs) = 11" by code_simp
  then have ne: "findMatchingFiles ''in'' eleven_pairs \<noteq> []" by auto
  have o0: "outline ?init = ?first" by (simp add: outline_main n ne)
  have c9: "foldl outline_step ?first nine_closed =
      (Running, 0, 11, [True, True, True, True, True, True, True, True, True, False], True)"
    by code_simp
  have c10: "foldl outline_step ?first (nine_closed @ [?e]) =
      (AwaitingKey, 10, 11, [True, True, True, True, True, True, True, True, True, True], True)"
    by code_simp
  have o9: "outline ?nine =
      (Running, 0, 11, [True, True, True, True, True, True, True, True, True, False], True)"
    by (simp only: outline_run o0 c9)
  have o10: "outline ?s =
      (AwaitingKey, 10, 11, [True, True, True, True, True, True, True, True, True, True], True)"
    by (simp only: outline_run o0 c10)
  from o9 have e1: "phase ?nine = Running" and e3: "currentIndex ?nine = 0"
    by (simp_all add: outline_def)
  from o10 have e2: "phase ?s = AwaitingKey" and r4: "length (matches ?s) = 11"
    by (simp_all add: outline_def)
  note t9 = batch_barrier [of ?nine "listing eleven_pairs" "[''in'', ''out'']" nine_closed ?e, OF refl]
  note t = batch_barrier [of ?s "listing eleven_pairs" "[''in'', ''out'']"
      "nine_closed @ [?e]" "Child 2 (Close (Some 0))", OF refl]
  note tk = batch_barrier [of ?s "listing eleven_pairs" "[''in'', ''out'']"
      "nine_closed @ [?e]" StdinData, OF refl]
  from t9 e1 e2 d have c: "currentIndex ?s = currentIndex ?nine + BATCH_SIZE" by simp
  then have r3: "currentIndex ?s = 10" by (simp add: e3 BATCH_SIZE_def)
  have v: "list_all valid_entry eleven_pairs" by code_simp
  then have hv: "\<forall>d files. readdir (listing eleven_pairs) d = Inr files \<longrightarrow>
      list_all valid_entry files"
    by (simp add: listing_def)
  from t e2 hv have rr: "length (results ?s) = min (currentIndex ?s) (length (matches ?s))"
    and rt: "total ?s = length (matches ?s)"
    by simp_all
  from t e2 have "length (filter is_settled (tasks ?s)) = min (currentIndex ?s) (length (matches ?s))"
    and l: "length (tasks ?s) = min (currentIndex ?s) (length (matches ?s))"
    and sp: "length (spawned ?s) = length (tasks ?s)"
    and r7: "phase (deliver ?s (Child 2 (Close (Some 0)))) = AwaitingKey"
    by simp_all
  then have r5: "length (filter is_settled (tasks ?s)) = 10" and lt: "length (tasks ?s) = 10"
    and r6: "length (spawned ?s) = 10"
    by (simp_all add: r3 r4)
  from tk e2 have r8: "phase (deliver ?s StdinData) = Running" by simp
  have ck: "outline_step
      (AwaitingKey, 10, 11, [True, True, True, True, True, True, True, True, True, True], True)
      StdinData =
      (Running, 10, 11,
       [True, True, True, True, True, True, True, True, True, True, False], True)"
    by code_simp
  have "outline (deliver ?s StdinData) =
      (Running, 10, 11,
       [True, True, True, True, True, True, True, True, True, True, False], True)"
    by (simp only: outline_deliver o10 ck)
  then have "map is_settled (tasks (deliver ?s StdinData)) =
      [True, True, True, True, True, True, True, True, True, True, False]"
    by (simp add: outline_def)
  then have "length (map is_settled (tasks (deliver ?s StdinData))) = 11" by simp
  then have r9: "length (tasks (deliver ?s StdinData)) = 11" by simp
  from rr rt have r10: "length (results ?s) = 10" and r11: "total ?s = 11"
    by (simp_all add: r3 r4)
  from e1 e2 r3 r4 r5 r6 r7 r8 r9 v r10 r11 show ?thesis by blast
qed

end
